theory Spec2Isabelle
  imports Complex_Main "HOL-Library.Multiset"
begin

section \<open>Data model of the lasso selection (lasso\_selection.h)\<close>

text \<open>
  The C++ \<open>int\<close> coordinates are tile coordinates of a map. A coordinate is modelled
  as a mathematical integer, and the sum or difference of two coordinates that the path
  capture, the simplifier and the rasterizer compute is taken exactly: it stays within
  32 bits as long as coordinates are below \<open>2^30\<close> in absolute value. The products of
  two \<open>int\<close>s are where 32 bits are left already at the coordinates of a large map: the
  code has two, in \<open>pointInPolygon\<close> and in the size estimate of \<open>getTilesInPolygon\<close>,
  and there every \<open>int\<close> operation is modelled with its two's complement wrap-around.
  A \<open>double\<close> is modelled as a real number: the doubles of this code are coordinates,
  their differences, products and sums, one quotient per edge, and square roots, and the
  code only compares them and rounds them with \<open>ceil\<close> and \<open>floor\<close>. So the \<open>x\<close> of an
  active edge, which the code advances by adding the rounded quotient once per scanline,
  is the exact intersection here.
  The fields \<open>x\<close>, \<open>y\<close> of \<open>LassoPoint\<close> and \<open>x\<close> of \<open>LassoEdge\<close> carry a prefix,
  since \<open>x\<close> and \<open>y\<close> are needed as variable names.
\<close>

record LassoPoint =
  pt_x :: int
  pt_y :: int

text \<open>
  The value a 32-bit \<open>int\<close> holds after an operation whose exact result is \<open>i\<close>, and
  the \<open>int\<close> operations with that wrap-around. Division of C++ \<open>int\<close>s truncates
  towards zero.
\<close>

definition wrap32 :: "int \<Rightarrow> int" where
  "wrap32 i = (i + 2 ^ 31) mod 2 ^ 32 - 2 ^ 31"

definition cdiv :: "int \<Rightarrow> int \<Rightarrow> int" where
  "cdiv a b = (if (a < 0) = (b < 0) then \<bar>a\<bar> div \<bar>b\<bar> else - (\<bar>a\<bar> div \<bar>b\<bar>))"

definition iadd :: "int \<Rightarrow> int \<Rightarrow> int" where
  "iadd a b = wrap32 (a + b)"

definition isub :: "int \<Rightarrow> int \<Rightarrow> int" where
  "isub a b = wrap32 (a - b)"

definition imul :: "int \<Rightarrow> int \<Rightarrow> int" where
  "imul a b = wrap32 (a * b)"

definition idiv :: "int \<Rightarrow> int \<Rightarrow> int" where
  "idiv a b = wrap32 (cdiv a b)"

definition distanceTo :: "LassoPoint \<Rightarrow> LassoPoint \<Rightarrow> real" where
  "distanceTo p other =
     (let dx = real_of_int (pt_x p - pt_x other);
          dy = real_of_int (pt_y p - pt_y other)
      in sqrt (dx * dx + dy * dy))"

definition distanceSquaredTo :: "LassoPoint \<Rightarrow> LassoPoint \<Rightarrow> real" where
  "distanceSquaredTo p other =
     (let dx = real_of_int (pt_x p - pt_x other);
          dy = real_of_int (pt_y p - pt_y other)
      in dx * dx + dy * dy)"

record LassoBoundingBox =
  minX :: int
  minY :: int
  maxX :: int
  maxY :: int
  hasPoints :: bool

definition LassoBoundingBox_init :: LassoBoundingBox where
  "LassoBoundingBox_init = \<lparr>minX = 0, minY = 0, maxX = 0, maxY = 0, hasPoints = False\<rparr>"

definition reset :: "LassoBoundingBox \<Rightarrow> LassoBoundingBox" where
  "reset b = b\<lparr>minX := 0, minY := 0, maxX := 0, maxY := 0, hasPoints := False\<rparr>"

definition expand :: "LassoBoundingBox \<Rightarrow> int \<Rightarrow> int \<Rightarrow> LassoBoundingBox" where
  "expand b x y =
     (if \<not> hasPoints b
      then b\<lparr>minX := x, maxX := x, minY := y, maxY := y, hasPoints := True\<rparr>
      else
        (let b1 = (if x < minX b then b\<lparr>minX := x\<rparr> else b);
             b2 = (if x > maxX b1 then b1\<lparr>maxX := x\<rparr> else b1);
             b3 = (if y < minY b2 then b2\<lparr>minY := y\<rparr> else b2);
             b4 = (if y > maxY b3 then b3\<lparr>maxY := y\<rparr> else b3)
         in b4))"

definition contains :: "LassoBoundingBox \<Rightarrow> int \<Rightarrow> int \<Rightarrow> bool" where
  "contains b x y =
     (if \<not> hasPoints b then False
      else x \<ge> minX b \<and> x \<le> maxX b \<and> y \<ge> minY b \<and> y \<le> maxY b)"

definition isValid :: "LassoBoundingBox \<Rightarrow> bool" where
  "isValid b = (hasPoints b \<and> minX b \<le> maxX b \<and> minY b \<le> maxY b)"

definition width :: "LassoBoundingBox \<Rightarrow> int" where
  "width b = (if hasPoints b then maxX b - minX b else 0)"

definition height :: "LassoBoundingBox \<Rightarrow> int" where
  "height b = (if hasPoints b then maxY b - minY b else 0)"

record LassoEdge =
  yMax :: int
  edge_x :: real
  invSlope :: real

text \<open>A \<open>Position\<close> (position.h) is the triple \<open>(x, y, z)\<close>.\<close>

type_synonym Position = "int \<times> int \<times> int"

text \<open>
  The exception a query can leave with. \<open>std::vector::reserve\<close> takes an unsigned
  size: a negative \<open>int\<close> converts to a size above \<open>max_size()\<close>, and \<open>reserve\<close> throws
  \<open>std::length_error\<close>. Otherwise it leaves the contents of the vector as they are.
  (Whether an allocation of the size asked for succeeds depends on the machine; the
  model takes it to succeed.)
\<close>

datatype LassoError = LengthError

definition reserve :: "'a list \<Rightarrow> int \<Rightarrow> LassoError + 'a list" where
  "reserve v n = (if n < 0 then Inl LengthError else Inr v)"

record LassoSelection =
  m_path :: "LassoPoint list"
  m_simplifiedPath :: "LassoPoint list"
  m_boundingBox :: LassoBoundingBox
  m_active :: bool
  m_closed :: bool
  m_minPointDistance :: real
  m_minPointDistanceSquared :: real
  m_simplifyTolerance :: real

text \<open>The constructor.\<close>

definition LassoSelection_init :: LassoSelection where
  "LassoSelection_init =
     \<lparr>m_path = [], m_simplifiedPath = [], m_boundingBox = LassoBoundingBox_init,
      m_active = False, m_closed = False,
      m_minPointDistance = 1 / 2, m_minPointDistanceSquared = 1 / 4,
      m_simplifyTolerance = 1 / 2\<rparr>"


definition setMinPointDistance :: "LassoSelection \<Rightarrow> real \<Rightarrow> LassoSelection" where
  "setMinPointDistance s d = s\<lparr>m_minPointDistance := d\<rparr>"

definition setSimplifyTolerance :: "LassoSelection \<Rightarrow> real \<Rightarrow> LassoSelection" where
  "setSimplifyTolerance s tol = s\<lparr>m_simplifyTolerance := tol\<rparr>"

section \<open>Path capture\<close>

definition clear :: "LassoSelection \<Rightarrow> LassoSelection" where
  "clear s =
     s\<lparr>m_path := [], m_simplifiedPath := [],
       m_boundingBox := reset (m_boundingBox s),
       m_active := False, m_closed := False\<rparr>"

definition addPoint :: "LassoSelection \<Rightarrow> int \<Rightarrow> int \<Rightarrow> LassoSelection" where
  "addPoint s x y =
     (let newPoint = \<lparr>pt_x = x, pt_y = y\<rparr> in
      if m_path s \<noteq> [] \<and>
         distanceSquaredTo (last (m_path s)) newPoint < m_minPointDistanceSquared s
      then s
      else
        (let s1 = s\<lparr>m_path := m_path s @ [newPoint],
                     m_boundingBox := expand (m_boundingBox s) x y\<rparr>
         in if length (m_path s1) \<le> 2 then s1\<lparr>m_simplifiedPath := m_path s1\<rparr>
            else if length (m_path s1) mod 20 = 0 then s1\<lparr>m_simplifiedPath := m_path s1\<rparr>
            else s1))"

section \<open>Path simplification (Ramer-Douglas-Peucker)\<close>

definition perpendicularDistance :: "LassoPoint \<Rightarrow> LassoPoint \<Rightarrow> LassoPoint \<Rightarrow> real" where
  "perpendicularDistance point lineStart lineEnd =
     (let dx = real_of_int (pt_x lineEnd - pt_x lineStart);
          dy = real_of_int (pt_y lineEnd - pt_y lineStart);
          lineLengthSq = dx * dx + dy * dy
      in if lineLengthSq = 0 then distanceTo point lineStart
         else
           (let cross = \<bar>real_of_int (pt_x point - pt_x lineStart) * dy
                          - real_of_int (pt_y point - pt_y lineStart) * dx\<bar>
            in cross / sqrt lineLengthSq))"

text \<open>
  The \<open>for\<close> loop of \<open>rdpSimplify\<close>: \<open>i\<close> runs from \<open>start + 1\<close> up to \<open>end - 1\<close>,
  the loop state is \<open>(maxDist, maxIndex)\<close>. The indices of the source are
  non-negative \<open>int\<close>s; they are natural numbers here.
\<close>

function rdpScan ::
  "LassoPoint list \<Rightarrow> nat \<Rightarrow> nat \<Rightarrow> nat \<Rightarrow> real \<Rightarrow> nat \<Rightarrow> real \<times> nat" where
  "rdpScan points start endi i maxDist maxIndex =
     (if i < endi then
        (let d = perpendicularDistance (points ! i) (points ! start) (points ! endi)
         in if d > maxDist then rdpScan points start endi (i + 1) d i
            else rdpScan points start endi (i + 1) maxDist maxIndex)
      else (maxDist, maxIndex))"
  by pat_completeness auto
termination
  by (relation "measure (\<lambda>(points, start, endi, i, maxDist, maxIndex). endi - i)") auto

declare rdpScan.simps [simp del]

text \<open>
  \<open>rdpSimplify\<close> marks the kept indices in \<open>keep\<close> and calls itself twice. Nothing in
  the source bounds the recursion, so the result is an option: \<open>None\<close> stands for a
  call that does not return. The guard \<open>end - start < 2\<close> is written \<open>endi < start + 2\<close>.
\<close>

partial_function (option) rdpSimplify ::
  "LassoPoint list \<Rightarrow> nat \<Rightarrow> nat \<Rightarrow> real \<Rightarrow> bool list \<Rightarrow> bool list option" where
  "rdpSimplify points start endi epsilon keep =
     (if endi < start + 2 then Some keep
      else
        (case rdpScan points start endi (start + 1) 0 start of
           (maxDist, maxIndex) \<Rightarrow>
             if maxDist > epsilon then
               Option.bind (rdpSimplify points start maxIndex epsilon (keep[maxIndex := True]))
                 (\<lambda>keep1. rdpSimplify points maxIndex endi epsilon keep1)
             else Some keep))"

text \<open>The final loop of \<open>simplifyPath\<close>: the points whose mark is set, in order.\<close>

fun collectKept :: "LassoPoint list \<Rightarrow> bool list \<Rightarrow> LassoPoint list" where
  "collectKept (p # ps) (k # ks) = (if k then p # collectKept ps ks else collectKept ps ks)"
| "collectKept _ _ = []"

definition simplifyPath :: "LassoSelection \<Rightarrow> LassoSelection option" where
  "simplifyPath s =
     (if length (m_path s) < 3 then Some (s\<lparr>m_simplifiedPath := m_path s\<rparr>)
      else
        (let n = length (m_path s);
             keep0 = ((replicate n False)[0 := True])[n - 1 := True]
         in case rdpSimplify (m_path s) 0 (n - 1) (m_simplifyTolerance s) keep0 of
              None \<Rightarrow> None
            | Some keep \<Rightarrow> Some (s\<lparr>m_simplifiedPath := collectKept (m_path s) keep\<rparr>)))"

definition closePath :: "LassoSelection \<Rightarrow> LassoSelection option" where
  "closePath s =
     (if length (m_path s) < 3 then Some (clear s)
      else
        (let s1 = (if \<not> (hd (m_path s) = last (m_path s))
                   then s\<lparr>m_path := m_path s @ [hd (m_path s)]\<rparr> else s);
             s2 = s1\<lparr>m_closed := True\<rparr>
         in simplifyPath s2))"

section \<open>Polygon rasterizer (active edge table)\<close>

text \<open>
  The functions of this section and of the next are \<open>const\<close> member functions. Each is
  modelled as a function from the session it is called on (and its arguments, with the
  vector it is given by reference) to the session it leaves and what it returns (with
  the vector as it leaves it).
\<close>

text \<open>The polygon both queries work on: the simplified path unless it is empty.\<close>

definition poly_of :: "LassoSelection \<Rightarrow> LassoPoint list" where
  "poly_of s = (if m_simplifiedPath s = [] then m_path s else m_simplifiedPath s)"

text \<open>The loop of \<open>buildEdgeTable\<close> over the consecutive points \<open>poly[i]\<close>, \<open>poly[i + 1]\<close>.\<close>

fun buildEdges ::
  "LassoPoint list \<Rightarrow> LassoEdge list list \<Rightarrow> int \<Rightarrow> LassoEdge list list" where
  "buildEdges (p1 # p2 # ps) edgeTable minY' =
     (if pt_y p1 = pt_y p2 then buildEdges (p2 # ps) edgeTable minY'
      else
        (let yMin = (if pt_y p1 < pt_y p2 then pt_y p1 else pt_y p2);
             yMx = (if pt_y p1 < pt_y p2 then pt_y p2 else pt_y p1);
             xAtYMin = (if pt_y p1 < pt_y p2 then real_of_int (pt_x p1)
                        else real_of_int (pt_x p2));
             invSl = real_of_int (pt_x p2 - pt_x p1) / real_of_int (pt_y p2 - pt_y p1);
             bucketIndex = yMin - minY'
         in buildEdges (p2 # ps)
              (if bucketIndex \<ge> 0 \<and> bucketIndex < int (length edgeTable)
               then edgeTable[nat bucketIndex :=
                      edgeTable ! nat bucketIndex
                        @ [\<lparr>yMax = yMx, edge_x = xAtYMin, invSlope = invSl\<rparr>]]
               else edgeTable)
              minY'))"
| "buildEdges ps edgeTable minY' = edgeTable"

definition buildEdgeTable ::
  "LassoSelection \<Rightarrow> LassoEdge list list \<Rightarrow> int \<Rightarrow> LassoSelection \<times> LassoEdge list list" where
  "buildEdgeTable s edgeTable minY' =
     (let poly = poly_of s in
      if length poly < 3 then (s, edgeTable) else (s, buildEdges poly edgeTable minY'))"

text \<open>
  Filling between pairs of intersections: the loop \<open>i = 0, 2, 4, ...\<close> while
  \<open>i + 1 < size\<close>, and inside it the loop over \<open>x\<close> from \<open>ceil\<close> to \<open>floor\<close>.
\<close>

fun fillPairs :: "LassoEdge list \<Rightarrow> int \<Rightarrow> int \<Rightarrow> Position list \<Rightarrow> Position list" where
  "fillPairs (a # b # rest) y fl tiles =
     (let xStart = \<lceil>edge_x a\<rceil>; xEnd = \<lfloor>edge_x b\<rfloor>
      in fillPairs rest y fl (tiles @ map (\<lambda>x. (x, y, fl)) [xStart..xEnd]))"
| "fillPairs rest y fl tiles = tiles"

text \<open>
  The scanline loop. \<open>std::sort\<close> orders the active edges by their \<open>x\<close>; the cells
  emitted depend on the sorted sequence of the \<open>x\<close> values only, which is the same for
  every sorting algorithm.
\<close>

function scanLoop ::
  "LassoEdge list list \<Rightarrow> int \<Rightarrow> int \<Rightarrow> int \<Rightarrow> int \<Rightarrow> LassoEdge list
     \<Rightarrow> Position list \<Rightarrow> Position list" where
  "scanLoop edgeTable minY' maxY' fl y activeEdges tiles =
     (if y \<le> maxY' then
        (let bucketIndex = y - minY';
             act1 = (if bucketIndex < int (length edgeTable)
                     then activeEdges @ edgeTable ! nat bucketIndex else activeEdges);
             act2 = filter (\<lambda>e. \<not> (yMax e = y)) act1
         in if act2 = [] then scanLoop edgeTable minY' maxY' fl (y + 1) act2 tiles
            else
              (let act3 = sort_key edge_x act2;
                   tiles1 = fillPairs act3 y fl tiles;
                   act4 = map (\<lambda>e. e\<lparr>edge_x := edge_x e + invSlope e\<rparr>) act3
               in scanLoop edgeTable minY' maxY' fl (y + 1) act4 tiles1))
      else tiles)"
  by pat_completeness auto
termination
  by (relation "measure (\<lambda>(edgeTable, minY', maxY', fl, y, activeEdges, tiles).
        nat (maxY' + 1 - y))") auto

declare scanLoop.simps [simp del]

definition scanlineFillAET ::
  "LassoSelection \<Rightarrow> int \<Rightarrow> Position list \<Rightarrow> LassoSelection \<times> Position list" where
  "scanlineFillAET s fl tiles =
     (let poly = poly_of s in
      if length poly < 3 then (s, tiles)
      else if \<not> isValid (m_boundingBox s) then (s, tiles)
      else
        (let minY' = minY (m_boundingBox s);
             maxY' = maxY (m_boundingBox s);
             hgt = maxY' - minY' + 1
         in case buildEdgeTable s (replicate (nat hgt) []) minY' of
              (s1, edgeTable) \<Rightarrow> (s1, scanLoop edgeTable minY' maxY' fl minY' [] tiles)))"

text \<open>
  \<open>getTilesInPolygon\<close> returns the cells, or leaves with the exception of \<open>reserve\<close>,
  which nothing in it catches: the estimate \<open>(width + 1) * (height + 1)\<close> is an \<open>int\<close>
  product, and once it has wrapped around to a negative number so has its half.
\<close>

definition getTilesInPolygon ::
  "LassoSelection \<Rightarrow> int \<Rightarrow> LassoSelection \<times> (LassoError + Position list)" where
  "getTilesInPolygon s fl =
     (let tiles = [] in
      if \<not> m_closed s \<or> length (m_path s) < 3 then (s, Inr tiles)
      else
        (case (if isValid (m_boundingBox s)
               then (let estimatedTiles =
                           imul (iadd (width (m_boundingBox s)) 1)
                                (iadd (height (m_boundingBox s)) 1)
                     in reserve tiles (idiv estimatedTiles 2))
               else Inr tiles) of
           Inl e \<Rightarrow> (s, Inl e)
         | Inr tiles1 \<Rightarrow>
             (case scanlineFillAET s fl tiles1 of (s1, tiles2) \<Rightarrow> (s1, Inr tiles2))))"

text \<open>
  The sorted active edge list of every scanline that has one, with its \<open>y\<close>: the
  scanline loop again, collecting what \<open>fillPairs\<close> is called on instead of the cells.
\<close>

function scanRows ::
  "LassoEdge list list \<Rightarrow> int \<Rightarrow> int \<Rightarrow> int \<Rightarrow> LassoEdge list
     \<Rightarrow> (int \<times> LassoEdge list) list" where
  "scanRows edgeTable minY' maxY' y activeEdges =
     (if y \<le> maxY' then
        (let bucketIndex = y - minY';
             act1 = (if bucketIndex < int (length edgeTable)
                     then activeEdges @ edgeTable ! nat bucketIndex else activeEdges);
             act2 = filter (\<lambda>e. \<not> (yMax e = y)) act1
         in if act2 = [] then scanRows edgeTable minY' maxY' (y + 1) act2
            else
              (let act3 = sort_key edge_x act2;
                   act4 = map (\<lambda>e. e\<lparr>edge_x := edge_x e + invSlope e\<rparr>) act3
               in (y, act3) # scanRows edgeTable minY' maxY' (y + 1) act4))
      else [])"
  by pat_completeness auto
termination
  by (relation "measure (\<lambda>(edgeTable, minY', maxY', y, activeEdges). nat (maxY' + 1 - y))") auto

declare scanRows.simps [simp del]

definition activeRows :: "LassoSelection \<Rightarrow> (int \<times> LassoEdge list) list" where
  "activeRows s =
     (let poly = poly_of s in
      if length poly < 3 then []
      else if \<not> isValid (m_boundingBox s) then []
      else
        (let minY' = minY (m_boundingBox s);
             maxY' = maxY (m_boundingBox s);
             hgt = maxY' - minY' + 1;
             edgeTable = snd (buildEdgeTable s (replicate (nat hgt) []) minY')
         in scanRows edgeTable minY' maxY' minY' []))"

text \<open>
  Two neighbouring spans of a scanline are apart when the last cell of the left one,
  \<open>floor\<close> of its right intersection, lies left of the first cell of the right one.
\<close>

fun spansApart :: "LassoEdge list \<Rightarrow> bool" where
  "spansApart (a # b # c # d # rest) =
     (\<lfloor>edge_x b\<rfloor> < \<lceil>edge_x c\<rceil> \<and> spansApart (c # d # rest))"
| "spansApart rest = True"

section \<open>Point containment (ray casting)\<close>

text \<open>
  The loop \<open>for (i = 0; i < size; j = i++)\<close>: \<open>p_j\<close> is the point before \<open>p_i\<close>,
  at first the last point of the polygon. The code evaluates the right operand of \<open>&&\<close>
  only when the left one holds, and then the divisor is not zero; every \<open>int\<close>
  operation of that operand wraps around.
\<close>

fun pipLoop :: "LassoPoint list \<Rightarrow> LassoPoint \<Rightarrow> int \<Rightarrow> int \<Rightarrow> bool \<Rightarrow> bool" where
  "pipLoop [] p_j x y inside = inside"
| "pipLoop (p_i # rest) p_j x y inside =
     pipLoop rest p_i x y
       (if ((pt_y p_i > y) \<noteq> (pt_y p_j > y)) \<and>
           x < iadd (idiv (imul (isub (pt_x p_j) (pt_x p_i)) (isub y (pt_y p_i)))
                          (isub (pt_y p_j) (pt_y p_i)))
                    (pt_x p_i)
        then \<not> inside else inside)"

definition pointInPolygon :: "LassoSelection \<Rightarrow> int \<Rightarrow> int \<Rightarrow> LassoSelection \<times> bool" where
  "pointInPolygon s x y =
     (let poly = poly_of s in
      if length poly < 3 then (s, False)
      else (s, pipLoop poly (last poly) x y False))"

section \<open>Sessions\<close>


text \<open>
  The bounding box invariant: the box has points exactly when the raw path has, and then
  it is the smallest box around the points of the raw path (it contains them all and
  each of its four sides is attained by one of them).
\<close>

definition boxInvariant :: "LassoSelection \<Rightarrow> bool" where
  "boxInvariant s =
     (let b = m_boundingBox s; ps = m_path s in
      (hasPoints b = (ps \<noteq> [])) \<and>
      (hasPoints b \<longrightarrow>
         minX b \<le> maxX b \<and> minY b \<le> maxY b \<and>
         (\<forall>p \<in> set ps. minX b \<le> pt_x p \<and> pt_x p \<le> maxX b \<and>
                         minY b \<le> pt_y p \<and> pt_y p \<le> maxY b) \<and>
         (\<exists>p \<in> set ps. pt_x p = minX b) \<and> (\<exists>p \<in> set ps. pt_x p = maxX b) \<and>
         (\<exists>p \<in> set ps. pt_y p = minY b) \<and> (\<exists>p \<in> set ps. pt_y p = maxY b)))"




subsection \<open>Small boxes, and the edges of a polygon\<close>








subsection \<open>Ranges and marks of the simplifier\<close>

text \<open>
  The points \<open>points[start .. end]\<close> that one call of \<open>rdpSimplify\<close> works on.
\<close>

definition segment :: "'a list \<Rightarrow> nat \<Rightarrow> nat \<Rightarrow> 'a list" where
  "segment xs s e = take (e + 1 - s) (drop s xs)"

text \<open>
  The marks \<open>rdpSimplify\<close> leaves on a range, told as a relation between the points of
  the range and the marks: a range of fewer than 3 points keeps both ends; a longer one
  keeps only its ends when the largest distance is within the tolerance, and otherwise
  is split at the index the scan returns, the two halves sharing that point.
\<close>

inductive rdpMarks :: "real \<Rightarrow> LassoPoint list \<Rightarrow> bool list \<Rightarrow> bool" where
  marks_short: "length ps < 3 \<Longrightarrow> rdpMarks eps ps (replicate (length ps) True)"
| marks_flat:
    "3 \<le> length ps \<Longrightarrow> rdpScan ps 0 (length ps - 1) 1 0 0 = (md, mi) \<Longrightarrow> \<not> md > eps \<Longrightarrow>
     rdpMarks eps ps (True # replicate (length ps - 2) False @ [True])"
| marks_split:
    "3 \<le> length ps \<Longrightarrow> rdpScan ps 0 (length ps - 1) 1 0 0 = (md, mi) \<Longrightarrow> md > eps \<Longrightarrow>
     rdpMarks eps (take (mi + 1) ps) l \<Longrightarrow> rdpMarks eps (drop mi ps) r \<Longrightarrow>
     rdpMarks eps ps (l @ tl r)"

text \<open>
  What holds of \<open>keep\<close> whenever \<open>rdpSimplify\<close> is called on the range from \<open>s\<close> to \<open>e\<close>:
  both ends are marked and nothing in between is.
\<close>

definition rangeOpen :: "LassoPoint list \<Rightarrow> nat \<Rightarrow> nat \<Rightarrow> bool list \<Rightarrow> bool" where
  "rangeOpen points s e keep =
     (s \<le> e \<and> e < length points \<and> length keep = length points \<and> keep ! s \<and> keep ! e \<and>
      (\<forall>i. s < i \<and> i < e \<longrightarrow> \<not> keep ! i))"

subsection \<open>Distances of the specification\<close>

text \<open>
  The distance from the point \<open>p\<close> to the point \<open>a + t (b - a)\<close> of the line through
  \<open>a\<close> and \<open>b\<close>.
\<close>

definition lineDistanceAt :: "LassoPoint \<Rightarrow> LassoPoint \<Rightarrow> LassoPoint \<Rightarrow> real \<Rightarrow> real" where
  "lineDistanceAt p a b t =
     sqrt ((real_of_int (pt_x p) - (real_of_int (pt_x a) + t * real_of_int (pt_x b - pt_x a)))\<^sup>2 +
           (real_of_int (pt_y p) - (real_of_int (pt_y a) + t * real_of_int (pt_y b - pt_y a)))\<^sup>2)"

text \<open>
  The distance from a point to the simplified polyline, as the specification has it
  (``no raw point lies farther than the tolerance from the simplified polyline''): the
  distance to the nearest point of a segment, which is the foot of the perpendicular
  when that lies on the segment and the nearer end otherwise, and the least of these
  over the segments of the polyline.
\<close>

definition segmentDistance :: "LassoPoint \<Rightarrow> LassoPoint \<Rightarrow> LassoPoint \<Rightarrow> real" where
  "segmentDistance p a b =
     (let dx = real_of_int (pt_x b - pt_x a);
          dy = real_of_int (pt_y b - pt_y a);
          len2 = dx * dx + dy * dy;
          t = (if len2 = 0 then 0
               else (real_of_int (pt_x p - pt_x a) * dx + real_of_int (pt_y p - pt_y a) * dy)
                      / len2)
      in lineDistanceAt p a b (max 0 (min 1 t)))"

fun polylineDistance :: "LassoPoint \<Rightarrow> LassoPoint list \<Rightarrow> real" where
  "polylineDistance p [] = 0"
| "polylineDistance p [a] = lineDistanceAt p a a 0"
| "polylineDistance p [a, b] = segmentDistance p a b"
| "polylineDistance p (a # b # c # rest) =
     min (segmentDistance p a b) (polylineDistance p (b # c # rest))"

subsection \<open>Concrete gestures\<close>

text \<open>The square of the specification: four points added, before and after \<open>closePath\<close>.\<close>

definition square_open :: LassoSelection where
  "square_open =
     addPoint (addPoint (addPoint (addPoint LassoSelection_init 0 0) 0 3) 3 3) 3 0"

definition square_closed :: LassoSelection where
  "square_closed =
     \<lparr>m_path = [\<lparr>pt_x = 0, pt_y = 0\<rparr>, \<lparr>pt_x = 0, pt_y = 3\<rparr>, \<lparr>pt_x = 3, pt_y = 3\<rparr>,
                \<lparr>pt_x = 3, pt_y = 0\<rparr>, \<lparr>pt_x = 0, pt_y = 0\<rparr>],
      m_simplifiedPath =
               [\<lparr>pt_x = 0, pt_y = 0\<rparr>, \<lparr>pt_x = 0, pt_y = 3\<rparr>, \<lparr>pt_x = 3, pt_y = 3\<rparr>,
                \<lparr>pt_x = 3, pt_y = 0\<rparr>, \<lparr>pt_x = 0, pt_y = 0\<rparr>],
      m_boundingBox = \<lparr>minX = 0, minY = 0, maxX = 3, maxY = 3, hasPoints = True\<rparr>,
      m_active = False, m_closed = True,
      m_minPointDistance = 1 / 2, m_minPointDistanceSquared = 1 / 4,
      m_simplifyTolerance = 1 / 2\<rparr>"

text \<open>A self-intersecting outline whose two diagonals cross in the cell \<open>(1, 1)\<close>.\<close>

definition bowtie_open :: LassoSelection where
  "bowtie_open =
     addPoint (addPoint (addPoint (addPoint LassoSelection_init 0 0) 2 2) 2 0) 0 2"

definition bowtie_closed :: LassoSelection where
  "bowtie_closed =
     \<lparr>m_path = [\<lparr>pt_x = 0, pt_y = 0\<rparr>, \<lparr>pt_x = 2, pt_y = 2\<rparr>, \<lparr>pt_x = 2, pt_y = 0\<rparr>,
                \<lparr>pt_x = 0, pt_y = 2\<rparr>, \<lparr>pt_x = 0, pt_y = 0\<rparr>],
      m_simplifiedPath =
               [\<lparr>pt_x = 0, pt_y = 0\<rparr>, \<lparr>pt_x = 2, pt_y = 2\<rparr>, \<lparr>pt_x = 2, pt_y = 0\<rparr>,
                \<lparr>pt_x = 0, pt_y = 2\<rparr>, \<lparr>pt_x = 0, pt_y = 0\<rparr>],
      m_boundingBox = \<lparr>minX = 0, minY = 0, maxX = 2, maxY = 2, hasPoints = True\<rparr>,
      m_active = False, m_closed = True,
      m_minPointDistance = 1 / 2, m_minPointDistanceSquared = 1 / 4,
      m_simplifyTolerance = 1 / 2\<rparr>"

text \<open>A rectangle with a notch cut into its upper side: two spans on scanlines 0 and 1.\<close>

definition notch_open :: LassoSelection where
  "notch_open =
     addPoint (addPoint (addPoint (addPoint (addPoint (addPoint (addPoint (addPoint
       LassoSelection_init 0 0) 0 4) 6 4) 6 0) 4 0) 4 2) 2 2) 2 0"

definition notch_closed :: LassoSelection where
  "notch_closed =
     \<lparr>m_path = [\<lparr>pt_x = 0, pt_y = 0\<rparr>, \<lparr>pt_x = 0, pt_y = 4\<rparr>, \<lparr>pt_x = 6, pt_y = 4\<rparr>,
                \<lparr>pt_x = 6, pt_y = 0\<rparr>, \<lparr>pt_x = 4, pt_y = 0\<rparr>, \<lparr>pt_x = 4, pt_y = 2\<rparr>,
                \<lparr>pt_x = 2, pt_y = 2\<rparr>, \<lparr>pt_x = 2, pt_y = 0\<rparr>, \<lparr>pt_x = 0, pt_y = 0\<rparr>],
      m_simplifiedPath =
               [\<lparr>pt_x = 0, pt_y = 0\<rparr>, \<lparr>pt_x = 0, pt_y = 4\<rparr>, \<lparr>pt_x = 6, pt_y = 4\<rparr>,
                \<lparr>pt_x = 6, pt_y = 0\<rparr>, \<lparr>pt_x = 4, pt_y = 0\<rparr>, \<lparr>pt_x = 4, pt_y = 2\<rparr>,
                \<lparr>pt_x = 2, pt_y = 2\<rparr>, \<lparr>pt_x = 2, pt_y = 0\<rparr>, \<lparr>pt_x = 0, pt_y = 0\<rparr>],
      m_boundingBox = \<lparr>minX = 0, minY = 0, maxX = 6, maxY = 4, hasPoints = True\<rparr>,
      m_active = False, m_closed = True,
      m_minPointDistance = 1 / 2, m_minPointDistanceSquared = 1 / 4,
      m_simplifyTolerance = 1 / 2\<rparr>"


definition triangle_closed :: LassoSelection where
  "triangle_closed =
     \<lparr>m_path = [\<lparr>pt_x = 0, pt_y = 0\<rparr>, \<lparr>pt_x = 60000, pt_y = 60000\<rparr>,
                \<lparr>pt_x = 0, pt_y = 60000\<rparr>, \<lparr>pt_x = 0, pt_y = 0\<rparr>],
      m_simplifiedPath =
               [\<lparr>pt_x = 0, pt_y = 0\<rparr>, \<lparr>pt_x = 60000, pt_y = 60000\<rparr>,
                \<lparr>pt_x = 0, pt_y = 60000\<rparr>, \<lparr>pt_x = 0, pt_y = 0\<rparr>],
      m_boundingBox = \<lparr>minX = 0, minY = 0, maxX = 60000, maxY = 60000, hasPoints = True\<rparr>,
      m_active = False, m_closed = True,
      m_minPointDistance = 1 / 2, m_minPointDistanceSquared = 1 / 4,
      m_simplifyTolerance = 1 / 2\<rparr>"



text \<open>
  An elbow: four points, the second one on the straight line between its neighbours,
  before and after \<open>simplifyPath\<close>.
\<close>

definition elbow_raw :: LassoSelection where
  "elbow_raw =
     addPoint (addPoint (addPoint (addPoint LassoSelection_init 0 0) 2 0) 4 0) 4 4"

definition elbow_simplified :: LassoSelection where
  "elbow_simplified =
     \<lparr>m_path = [\<lparr>pt_x = 0, pt_y = 0\<rparr>, \<lparr>pt_x = 2, pt_y = 0\<rparr>, \<lparr>pt_x = 4, pt_y = 0\<rparr>,
                \<lparr>pt_x = 4, pt_y = 4\<rparr>],
      m_simplifiedPath = [\<lparr>pt_x = 0, pt_y = 0\<rparr>, \<lparr>pt_x = 4, pt_y = 0\<rparr>, \<lparr>pt_x = 4, pt_y = 4\<rparr>],
      m_boundingBox = \<lparr>minX = 0, minY = 0, maxX = 4, maxY = 4, hasPoints = True\<rparr>,
      m_active = False, m_closed = False,
      m_minPointDistance = 1 / 2, m_minPointDistanceSquared = 1 / 4,
      m_simplifyTolerance = 1 / 2\<rparr>"

section \<open>Evaluating the model\<close>

lemma sqrt_gt_iff: "0 \<le> a \<Longrightarrow> 0 \<le> e \<Longrightarrow> (e < sqrt a) = (e * e < a)"
  by (metis abs_of_nonneg real_sqrt_abs2 real_sqrt_less_iff)

lemma sqrt_lt_iff: "0 \<le> a \<Longrightarrow> 0 \<le> e \<Longrightarrow> (sqrt a < e) = (a < e * e)"
  by (metis abs_of_nonneg real_sqrt_abs2 real_sqrt_less_iff)

lemma sqrt_mult_gt_iff:
  "0 \<le> a \<Longrightarrow> 0 < c \<Longrightarrow> 0 \<le> e \<Longrightarrow> (e < sqrt a * c) = (e * e < a * c * c)"
proof -
  assume a: "0 \<le> a" and c: "0 < c" and e: "0 \<le> e"
  have "sqrt a * c = sqrt (a * c * c)"
    using c by (simp add: real_sqrt_mult mult.assoc)
  moreover have "0 \<le> a * c * c" using a c by simp
  ultimately show ?thesis using e by (simp add: sqrt_gt_iff)
qed

lemma div_sqrt_less: "0 < c \<Longrightarrow> (a / sqrt c < b / sqrt c) = (a < b)"
  by (simp add: divide_less_cancel)

lemmas eval_capture = addPoint_def LassoSelection_init_def Let_def distanceSquaredTo_def
  expand_def LassoBoundingBox_init_def setMinPointDistance_def setSimplifyTolerance_def

lemmas eval_rdp = closePath_def simplifyPath_def rdpSimplify.simps rdpScan.simps
  perpendicularDistance_def distanceTo_def Let_def sqrt_gt_iff sqrt_lt_iff sqrt_mult_gt_iff
  div_sqrt_less

lemmas eval_int = wrap32_def cdiv_def iadd_def isub_def imul_def idiv_def

lemmas eval_fill = getTilesInPolygon_def scanlineFillAET_def buildEdgeTable_def poly_of_def
  isValid_def width_def height_def reserve_def eval_int scanLoop.simps Let_def upto.simps

lemmas eval_pip = pointInPolygon_def poly_of_def eval_int Let_def

lemma square_open_eq:
  "square_open =
     \<lparr>m_path = [\<lparr>pt_x = 0, pt_y = 0\<rparr>, \<lparr>pt_x = 0, pt_y = 3\<rparr>, \<lparr>pt_x = 3, pt_y = 3\<rparr>,
                \<lparr>pt_x = 3, pt_y = 0\<rparr>],
      m_simplifiedPath = [\<lparr>pt_x = 0, pt_y = 0\<rparr>, \<lparr>pt_x = 0, pt_y = 3\<rparr>],
      m_boundingBox = \<lparr>minX = 0, minY = 0, maxX = 3, maxY = 3, hasPoints = True\<rparr>,
      m_active = False, m_closed = False,
      m_minPointDistance = 1 / 2, m_minPointDistanceSquared = 1 / 4,
      m_simplifyTolerance = 1 / 2\<rparr>"
  by (simp add: square_open_def eval_capture)

lemma square_close: "closePath square_open = Some square_closed"
  by (simp add: square_open_eq square_closed_def eval_rdp)

lemma square_fill:
  "getTilesInPolygon square_closed 0 =
     (square_closed,
      Inr [(0, 0, 0), (1, 0, 0), (2, 0, 0), (3, 0, 0),
      (0, 1, 0), (1, 1, 0), (2, 1, 0), (3, 1, 0),
      (0, 2, 0), (1, 2, 0), (2, 2, 0), (3, 2, 0)])"
  by (simp add: square_closed_def eval_fill)

lemma bowtie_close: "closePath bowtie_open = Some bowtie_closed"
  by (simp add: bowtie_open_def bowtie_closed_def eval_capture eval_rdp)

lemma bowtie_fill:
  "getTilesInPolygon bowtie_closed 0 =
     (bowtie_closed, Inr [(0, 0, 0), (2, 0, 0), (0, 1, 0), (1, 1, 0), (1, 1, 0), (2, 1, 0)])"
  by (simp add: bowtie_closed_def eval_fill)


lemma triangle_throws:
  "getTilesInPolygon triangle_closed 0 = (triangle_closed, Inl LengthError)"
  by (simp add: triangle_closed_def eval_fill)


lemma square_pip: "pointInPolygon square_closed 3 0 = (square_closed, False)"
  by (simp add: square_closed_def eval_pip)


section \<open>The simplifier returns\<close>

lemma rdpScan_result:
  "rdpScan points start endi i md mi = (md', mi') \<Longrightarrow>
     (md' = md \<and> mi' = mi) \<or> (md < md' \<and> i \<le> mi' \<and> mi' < endi)"
proof (induction points start endi i md mi rule: rdpScan.induct)
  case (1 points start endi i maxDist maxIndex)
  show ?case
  proof (cases "i < endi")
    case False
    with "1.prems" show ?thesis by (simp add: rdpScan.simps)
  next
    case True
    define d where "d = perpendicularDistance (points ! i) (points ! start) (points ! endi)"
    show ?thesis
    proof (cases "d > maxDist")
      case gt: True
      from "1.prems" True gt have "rdpScan points start endi (i + 1) d i = (md', mi')"
        by (subst (asm) rdpScan.simps) (simp add: d_def Let_def)
      from "1.IH"(1)[OF True d_def gt this] gt True show ?thesis by auto
    next
      case le: False
      from "1.prems" True le
      have "rdpScan points start endi (i + 1) maxDist maxIndex = (md', mi')"
        by (subst (asm) rdpScan.simps) (simp add: d_def Let_def)
      from "1.IH"(2)[OF True d_def le this] show ?thesis by auto
    qed
  qed
qed

text \<open>
  With a tolerance that is not negative, a split index lies strictly between \<open>start\<close>
  and \<open>end\<close>, both recursive calls work on shorter ranges, and \<open>rdpSimplify\<close> returns.
\<close>

lemma rdpSimplify_returns:
  "0 \<le> eps \<Longrightarrow> \<exists>k. rdpSimplify points start endi eps keep = Some k"
proof (induction "endi - start" arbitrary: start endi keep rule: less_induct)
  case less
  show ?case
  proof (cases "endi < start + 2")
    case True
    then show ?thesis by (subst rdpSimplify.simps) simp
  next
    case False
    obtain md mi where scan: "rdpScan points start endi (start + 1) 0 start = (md, mi)"
      by (cases "rdpScan points start endi (start + 1) 0 start")
    show ?thesis
    proof (cases "md > eps")
      case le: False
      with False scan show ?thesis by (subst rdpSimplify.simps) simp
    next
      case gt: True
      with less.prems have "0 < md" by simp
      with rdpScan_result[OF scan] have rng: "start + 1 \<le> mi" "mi < endi" by auto
      from rng have "mi - start < endi - start" by simp
      from less.hyps[OF this less.prems]
      obtain k1 where k1: "rdpSimplify points start mi eps (keep[mi := True]) = Some k1"
        by blast
      from rng have "endi - mi < endi - start" by simp
      from less.hyps[OF this less.prems]
      obtain k2 where k2: "rdpSimplify points mi endi eps k1 = Some k2" by blast
      from False scan gt k1 k2 show ?thesis by (subst rdpSimplify.simps) simp
    qed
  qed
qed

lemma simplifyPath_returns:
  "0 \<le> m_simplifyTolerance s \<Longrightarrow> \<exists>s'. simplifyPath s = Some s'"
proof -
  assume tol: "0 \<le> m_simplifyTolerance s"
  define n where "n = length (m_path s)"
  from rdpSimplify_returns[OF tol] obtain k where
    "rdpSimplify (m_path s) 0 (n - 1) (m_simplifyTolerance s)
       (((replicate n False)[0 := True])[n - 1 := True]) = Some k"
    by blast
  then show ?thesis by (simp add: simplifyPath_def Let_def n_def)
qed

lemma simplifyPath_frame:
  "simplifyPath s = Some s' \<Longrightarrow> \<exists>sp. s' = s\<lparr>m_simplifiedPath := sp\<rparr>"
  by (auto simp: simplifyPath_def Let_def split: if_splits option.splits)

lemma closePath_returns:
  "0 \<le> m_simplifyTolerance s \<Longrightarrow> \<exists>s'. closePath s = Some s'"
  using simplifyPath_returns by (simp add: closePath_def Let_def)

section \<open>Closing a path\<close>

text \<open>
  C2. After \<open>closePath\<close> on a raw path of at least 3 points, the raw path is the old one
  with its first point appended unless it already ended with it, its first and last
  points are equal and the session is closed; the call returns whenever the tolerance
  is not negative. On a raw path of fewer than 3 points \<open>closePath\<close> returns the
  cleared session: both paths empty, the bounding box reset, inactive and not closed.
\<close>

theorem closePath_closure:
  "(3 \<le> length (m_path s) \<longrightarrow>
      (0 \<le> m_simplifyTolerance s \<longrightarrow> (\<exists>s'. closePath s = Some s')) \<and>
      (\<forall>s'. closePath s = Some s' \<longrightarrow>
         m_path s' = (if hd (m_path s) = last (m_path s) then m_path s
                      else m_path s @ [hd (m_path s)]) \<and>
         hd (m_path s') = last (m_path s') \<and> m_closed s')) \<and>
   (length (m_path s) < 3 \<longrightarrow>
      (\<exists>s'. closePath s = Some s' \<and> s' = clear s \<and> m_path s' = [] \<and>
         m_simplifiedPath s' = [] \<and>
         m_boundingBox s' = reset (m_boundingBox s) \<and> \<not> hasPoints (m_boundingBox s') \<and>
         \<not> m_active s' \<and> \<not> m_closed s'))"
proof (intro conjI impI allI)
  assume "3 \<le> length (m_path s)" "0 \<le> m_simplifyTolerance s"
  then show "\<exists>s'. closePath s = Some s'" by (rule_tac closePath_returns)
next
  fix s'
  assume len: "3 \<le> length (m_path s)" and cl: "closePath s = Some s'"
  from len have ne: "m_path s \<noteq> []" by auto
  from cl len obtain sp where
    "s' = (if \<not> (hd (m_path s) = last (m_path s))
           then s\<lparr>m_path := m_path s @ [hd (m_path s)]\<rparr> else s)
          \<lparr>m_closed := True, m_simplifiedPath := sp\<rparr>"
    by (auto simp: closePath_def Let_def dest!: simplifyPath_frame split: if_splits)
  with ne show "m_path s' = (if hd (m_path s) = last (m_path s) then m_path s
                      else m_path s @ [hd (m_path s)])"
     and "hd (m_path s') = last (m_path s')" and "m_closed s'"
    by (auto split: if_splits)
next
  assume "length (m_path s) < 3"
  then show "\<exists>s'. closePath s = Some s' \<and> s' = clear s \<and> m_path s' = [] \<and>
         m_simplifiedPath s' = [] \<and>
         m_boundingBox s' = reset (m_boundingBox s) \<and> \<not> hasPoints (m_boundingBox s') \<and>
         \<not> m_active s' \<and> \<not> m_closed s'"
    by (simp add: closePath_def clear_def reset_def)
qed

theorem closePath_closure_witness:
  "3 \<le> length (m_path square_open) \<and> 0 \<le> m_simplifyTolerance square_open \<and>
   closePath square_open = Some square_closed \<and>
   m_path square_closed = m_path square_open @ [hd (m_path square_open)] \<and>
   hd (m_path square_closed) = last (m_path square_closed) \<and> m_closed square_closed \<and>
   length (m_path (addPoint LassoSelection_init 0 0)) < 3 \<and>
   closePath (addPoint LassoSelection_init 0 0) = Some (clear (addPoint LassoSelection_init 0 0)) \<and>
   m_path (clear (addPoint LassoSelection_init 0 0)) = []"
proof -
  have a: "3 \<le> length (m_path square_open)" and b: "0 \<le> m_simplifyTolerance square_open"
    and c: "hd (m_path square_open) \<noteq> last (m_path square_open)"
    by (simp_all add: square_open_eq)
  from closePath_closure[of square_open] a square_close
  have "m_path square_closed = (if hd (m_path square_open) = last (m_path square_open)
          then m_path square_open else m_path square_open @ [hd (m_path square_open)]) \<and>
        hd (m_path square_closed) = last (m_path square_closed) \<and> m_closed square_closed"
    by blast
  with c have d: "m_path square_closed = m_path square_open @ [hd (m_path square_open)] \<and>
        hd (m_path square_closed) = last (m_path square_closed) \<and> m_closed square_closed"
    by metis
  define one where "one = addPoint LassoSelection_init 0 0"
  have e: "length (m_path one) < 3"
    by (simp add: one_def eval_capture)
  from closePath_closure[of one] e
  have f: "closePath one = Some (clear one) \<and> m_path (clear one) = []"
    by auto
  from a b d e f square_close show ?thesis unfolding one_def by blast
qed

section \<open>Capturing points\<close>

lemma distanceSquaredTo_sq: "distanceSquaredTo p q = (distanceTo p q)\<^sup>2"
  by (simp add: distanceSquaredTo_def distanceTo_def Let_def power2_eq_square[symmetric])

lemma distanceTo_nonneg: "0 \<le> distanceTo p q"
  by (simp add: distanceTo_def Let_def)

text \<open>
  When the cached square is the square of the configured spacing, as it is after the
  constructor, \<open>addPoint\<close> appends exactly when the path is empty or the new point is
  at least the spacing away, and is a no-op otherwise.
\<close>

lemma addPoint_spacing:
  assumes "m_minPointDistanceSquared s = (m_minPointDistance s)\<^sup>2"
    and "0 \<le> m_minPointDistance s"
  shows "(m_path (addPoint s x y) = m_path s @ [\<lparr>pt_x = x, pt_y = y\<rparr>]) =
           (m_path s = [] \<or>
            m_minPointDistance s \<le> distanceTo (last (m_path s)) \<lparr>pt_x = x, pt_y = y\<rparr>)"
    and "\<not> (m_path s = [] \<or>
            m_minPointDistance s \<le> distanceTo (last (m_path s)) \<lparr>pt_x = x, pt_y = y\<rparr>)
         \<Longrightarrow> addPoint s x y = s"
proof -
  let ?d = "distanceTo (last (m_path s)) \<lparr>pt_x = x, pt_y = y\<rparr>"
  have "(?d\<^sup>2 < (m_minPointDistance s)\<^sup>2) = (?d < m_minPointDistance s)"
    using assms(2) distanceTo_nonneg[of "last (m_path s)" "\<lparr>pt_x = x, pt_y = y\<rparr>"]
    by (auto intro: power2_less_imp_less power_strict_mono)
  then have close: "(distanceSquaredTo (last (m_path s)) \<lparr>pt_x = x, pt_y = y\<rparr>
                 < m_minPointDistanceSquared s) = (?d < m_minPointDistance s)"
    by (simp add: distanceSquaredTo_sq assms(1))
  show "(m_path (addPoint s x y) = m_path s @ [\<lparr>pt_x = x, pt_y = y\<rparr>]) =
           (m_path s = [] \<or> m_minPointDistance s \<le> ?d)"
    using close by (auto simp: addPoint_def Let_def)
  show "\<not> (m_path s = [] \<or> m_minPointDistance s \<le> ?d) \<Longrightarrow> addPoint s x y = s"
    using close by (auto simp: addPoint_def Let_def)
qed

text \<open>
  C4. \<open>setMinPointDistance\<close> stores the new spacing and leaves the cached square at its
  old value, and \<open>addPoint\<close> compares against the cached square. After
  \<open>setMinPointDistance(2)\<close> and \<open>addPoint(0, 0)\<close>, the point \<open>(1, 0)\<close> is at distance 1,
  closer than the configured spacing 2, and \<open>addPoint(1, 0)\<close> appends it all the same.
\<close>

theorem addPoint_stale_threshold:
  "m_path (addPoint (setMinPointDistance LassoSelection_init 2) 0 0) = [\<lparr>pt_x = 0, pt_y = 0\<rparr>] \<and>
   m_minPointDistance (addPoint (setMinPointDistance LassoSelection_init 2) 0 0) = 2 \<and>
   distanceTo \<lparr>pt_x = 0, pt_y = 0\<rparr> \<lparr>pt_x = 1, pt_y = 0\<rparr> = 1 \<and>
   m_path (addPoint (addPoint (setMinPointDistance LassoSelection_init 2) 0 0) 1 0) =
     [\<lparr>pt_x = 0, pt_y = 0\<rparr>, \<lparr>pt_x = 1, pt_y = 0\<rparr>]"
  by (simp add: eval_capture distanceTo_def)

section \<open>Degenerate fills\<close>

text \<open>
  C7. \<open>getTilesInPolygon\<close> returns the empty collection when the session is not closed,
  when the raw path has fewer than 3 points, and when the bounding box is not valid: it
  returns, with \<open>Inr []\<close>, and does not leave with an exception (and it leaves the
  session as it was).
\<close>

theorem getTilesInPolygon_degenerate:
  "\<not> m_closed s \<or> length (m_path s) < 3 \<or> \<not> isValid (m_boundingBox s) \<Longrightarrow>
   getTilesInPolygon s fl = (s, Inr [])"
  by (auto simp: getTilesInPolygon_def scanlineFillAET_def Let_def)

theorem getTilesInPolygon_degenerate_witness:
  "\<not> m_closed square_open \<and> getTilesInPolygon square_open 0 = (square_open, Inr []) \<and>
   length (m_path (square_closed\<lparr>m_path := []\<rparr>)) < 3 \<and>
   getTilesInPolygon (square_closed\<lparr>m_path := []\<rparr>) 0 =
     (square_closed\<lparr>m_path := []\<rparr>, Inr []) \<and>
   \<not> isValid (m_boundingBox (square_closed\<lparr>m_boundingBox := LassoBoundingBox_init\<rparr>)) \<and>
   getTilesInPolygon (square_closed\<lparr>m_boundingBox := LassoBoundingBox_init\<rparr>) 0 =
     (square_closed\<lparr>m_boundingBox := LassoBoundingBox_init\<rparr>, Inr [])"
proof -
  have a: "\<not> m_closed square_open" by (simp add: square_open_eq)
  have b: "length (m_path (square_closed\<lparr>m_path := []\<rparr>)) < 3" by simp
  have c: "\<not> isValid (m_boundingBox (square_closed\<lparr>m_boundingBox := LassoBoundingBox_init\<rparr>))"
    by (simp add: isValid_def LassoBoundingBox_init_def)
  from a b c
    getTilesInPolygon_degenerate[of square_open 0]
    getTilesInPolygon_degenerate[of "square_closed\<lparr>m_path := []\<rparr>" 0]
    getTilesInPolygon_degenerate[of "square_closed\<lparr>m_boundingBox := LassoBoundingBox_init\<rparr>" 0]
  show ?thesis by blast
qed

section \<open>The bounding box\<close>

lemma boxInvariant_init: "boxInvariant LassoSelection_init"
  by (simp add: boxInvariant_def LassoSelection_init_def LassoBoundingBox_init_def)

lemma boxInvariant_clear: "boxInvariant (clear s)"
  by (simp add: boxInvariant_def clear_def reset_def)

lemma boxInvariant_path_cong:
  "m_path s' = m_path s \<Longrightarrow> m_boundingBox s' = m_boundingBox s \<Longrightarrow>
   boxInvariant s' = boxInvariant s"
  by (simp add: boxInvariant_def)

lemma boxInvariant_addPoint:
  assumes "boxInvariant s"
  shows "boxInvariant (addPoint s x y)"
proof (cases "m_path s \<noteq> [] \<and>
         distanceSquaredTo (last (m_path s)) \<lparr>pt_x = x, pt_y = y\<rparr> < m_minPointDistanceSquared s")
  case True
  then have "addPoint s x y = s" by (simp add: addPoint_def Let_def)
  with assms show ?thesis by simp
next
  case False
  then have p: "m_path (addPoint s x y) = m_path s @ [\<lparr>pt_x = x, pt_y = y\<rparr>]"
    and b: "m_boundingBox (addPoint s x y) = expand (m_boundingBox s) x y"
    by (auto simp: addPoint_def Let_def)
  show ?thesis
  proof (cases "hasPoints (m_boundingBox s)")
    case False
    with assms have "m_path s = []" by (simp add: boxInvariant_def Let_def)
    with False show ?thesis
      by (simp add: boxInvariant_def Let_def p b expand_def)
  next
    case True
    with assms show ?thesis
      unfolding boxInvariant_def Let_def p b expand_def
      by (auto simp: Let_def)
  qed
qed

lemma boxInvariant_closePath:
  assumes "boxInvariant s" and "closePath s = Some s'"
  shows "boxInvariant s'"
proof (cases "length (m_path s) < 3")
  case True
  with assms(2) have "s' = clear s" by (simp add: closePath_def)
  then show ?thesis by (simp add: boxInvariant_clear)
next
  case False
  then have ne: "m_path s \<noteq> []" by auto
  from False assms(2) obtain sp where
    s': "s' = (if \<not> (hd (m_path s) = last (m_path s))
           then s\<lparr>m_path := m_path s @ [hd (m_path s)]\<rparr> else s)
          \<lparr>m_closed := True, m_simplifiedPath := sp\<rparr>"
    by (auto simp: closePath_def Let_def dest!: simplifyPath_frame split: if_splits)
  have "set (m_path s') = set (m_path s)" "m_boundingBox s' = m_boundingBox s"
    "(m_path s' \<noteq> []) = (m_path s \<noteq> [])"
    using ne by (auto simp: s')
  with assms(1) show ?thesis by (simp add: boxInvariant_def Let_def)
qed

text \<open>
  C8. The bounding box invariant holds after the constructor and is preserved by
  \<open>clear\<close>, \<open>addPoint\<close> and \<open>closePath\<close>; under it a box with points has
  \<open>minX \<le> maxX\<close> and \<open>minY \<le> maxY\<close> and is the smallest box around the accepted points.
  \<open>addPoint\<close> leaves the box as it is or replaces it by \<open>expand\<close> of the old box and the
  new point alone, which looks at no earlier point.
\<close>

theorem boundingBox_invariant:
  "boxInvariant LassoSelection_init \<and>
   (boxInvariant s \<longrightarrow>
      boxInvariant (clear s) \<and> boxInvariant (addPoint s x y) \<and>
      (\<forall>s'. closePath s = Some s' \<longrightarrow> boxInvariant s') \<and>
      (hasPoints (m_boundingBox s) \<longrightarrow>
         minX (m_boundingBox s) \<le> maxX (m_boundingBox s) \<and>
         minY (m_boundingBox s) \<le> maxY (m_boundingBox s) \<and>
         (\<forall>p \<in> set (m_path s). contains (m_boundingBox s) (pt_x p) (pt_y p)) \<and>
         (\<exists>p \<in> set (m_path s). pt_x p = minX (m_boundingBox s)) \<and>
         (\<exists>p \<in> set (m_path s). pt_x p = maxX (m_boundingBox s)) \<and>
         (\<exists>p \<in> set (m_path s). pt_y p = minY (m_boundingBox s)) \<and>
         (\<exists>p \<in> set (m_path s). pt_y p = maxY (m_boundingBox s)))) \<and>
   (m_boundingBox (addPoint s x y) = m_boundingBox s \<or>
    m_boundingBox (addPoint s x y) = expand (m_boundingBox s) x y)"
proof (intro conjI impI allI)
  show "boxInvariant LassoSelection_init" by (rule boxInvariant_init)
  show "m_boundingBox (addPoint s x y) = m_boundingBox s \<or>
    m_boundingBox (addPoint s x y) = expand (m_boundingBox s) x y"
    by (simp add: addPoint_def Let_def)
next
  assume inv: "boxInvariant s"
  show "boxInvariant (clear s)" by (rule boxInvariant_clear)
  show "boxInvariant (addPoint s x y)" using inv by (rule boxInvariant_addPoint)
  { fix s' assume "closePath s = Some s'"
    with inv show "boxInvariant s'" by (rule boxInvariant_closePath) }
  assume hp: "hasPoints (m_boundingBox s)"
  with inv show "minX (m_boundingBox s) \<le> maxX (m_boundingBox s)"
    and "minY (m_boundingBox s) \<le> maxY (m_boundingBox s)"
    and "\<forall>p \<in> set (m_path s). contains (m_boundingBox s) (pt_x p) (pt_y p)"
    and "\<exists>p \<in> set (m_path s). pt_x p = minX (m_boundingBox s)"
    and "\<exists>p \<in> set (m_path s). pt_x p = maxX (m_boundingBox s)"
    and "\<exists>p \<in> set (m_path s). pt_y p = minY (m_boundingBox s)"
    and "\<exists>p \<in> set (m_path s). pt_y p = maxY (m_boundingBox s)"
    by (simp_all add: boxInvariant_def Let_def contains_def)
qed

theorem boundingBox_invariant_witness:
  "boxInvariant square_open \<and> hasPoints (m_boundingBox square_open) \<and>
   closePath square_open = Some square_closed \<and> boxInvariant square_closed \<and>
   boxInvariant (addPoint square_open 5 (-1)) \<and>
   m_boundingBox (addPoint square_open 5 (-1)) =
     \<lparr>minX = 0, minY = -1, maxX = 5, maxY = 3, hasPoints = True\<rparr> \<and>
   minX (m_boundingBox square_open) \<le> maxX (m_boundingBox square_open)"
proof -
  have a: "boxInvariant square_open"
    by (simp add: boxInvariant_def square_open_eq)
  have b: "hasPoints (m_boundingBox square_open)" by (simp add: square_open_eq)
  have c: "m_boundingBox (addPoint square_open 5 (-1)) =
     \<lparr>minX = 0, minY = -1, maxX = 5, maxY = 3, hasPoints = True\<rparr>"
    by (simp add: square_open_eq eval_capture)
  from a b c square_close boundingBox_invariant[of square_open 5 "-1"]
  show ?thesis by blast
qed

section \<open>Queries leave the session alone\<close>

text \<open>
  The two helpers of the fill return the session they were called on.
\<close>

lemma buildEdgeTable_frame: "fst (buildEdgeTable s edgeTable minY') = s"
  by (simp add: buildEdgeTable_def Let_def)

lemma scanlineFillAET_frame: "fst (scanlineFillAET s fl tiles) = s"
  using buildEdgeTable_frame[of s "replicate (nat (maxY (m_boundingBox s) - minY (m_boundingBox s) + 1)) []"
      "minY (m_boundingBox s)"]
  by (auto simp: scanlineFillAET_def Let_def split: prod.splits)

text \<open>
  C10. \<open>getTilesInPolygon\<close> and \<open>pointInPolygon\<close> leave the session they were
  called on as it was, field by field, for every session and every argument, also when
  \<open>getTilesInPolygon\<close> leaves with the exception of \<open>reserve\<close>; and a second call with
  the same arguments, on the session the first call left, gives the same result.
\<close>

theorem queries_frame:
  "fst (getTilesInPolygon s fl) = s \<and>
   fst (pointInPolygon s x y) = s \<and>
   m_path (fst (getTilesInPolygon s fl)) = m_path s \<and>
   m_simplifiedPath (fst (getTilesInPolygon s fl)) = m_simplifiedPath s \<and>
   m_boundingBox (fst (getTilesInPolygon s fl)) = m_boundingBox s \<and>
   m_active (fst (getTilesInPolygon s fl)) = m_active s \<and>
   m_closed (fst (getTilesInPolygon s fl)) = m_closed s \<and>
   m_minPointDistance (fst (getTilesInPolygon s fl)) = m_minPointDistance s \<and>
   m_minPointDistanceSquared (fst (getTilesInPolygon s fl)) = m_minPointDistanceSquared s \<and>
   m_simplifyTolerance (fst (getTilesInPolygon s fl)) = m_simplifyTolerance s \<and>
   m_path (fst (pointInPolygon s x y)) = m_path s \<and>
   m_simplifiedPath (fst (pointInPolygon s x y)) = m_simplifiedPath s \<and>
   m_boundingBox (fst (pointInPolygon s x y)) = m_boundingBox s \<and>
   m_active (fst (pointInPolygon s x y)) = m_active s \<and>
   m_closed (fst (pointInPolygon s x y)) = m_closed s \<and>
   m_minPointDistance (fst (pointInPolygon s x y)) = m_minPointDistance s \<and>
   m_minPointDistanceSquared (fst (pointInPolygon s x y)) = m_minPointDistanceSquared s \<and>
   m_simplifyTolerance (fst (pointInPolygon s x y)) = m_simplifyTolerance s \<and>
   snd (getTilesInPolygon (fst (getTilesInPolygon s fl)) fl) = snd (getTilesInPolygon s fl) \<and>
   snd (pointInPolygon (fst (pointInPolygon s x y)) x y) = snd (pointInPolygon s x y)"
proof -
  have "fst (scanlineFillAET s fl []) = s" by (rule scanlineFillAET_frame)
  then have g: "fst (getTilesInPolygon s fl) = s"
    by (auto simp: getTilesInPolygon_def Let_def reserve_def split: sum.splits prod.splits)
  have p: "fst (pointInPolygon s x y) = s"
    by (simp add: pointInPolygon_def Let_def)
  show ?thesis unfolding g p by simp
qed

theorem queries_frame_witness:
  "fst (getTilesInPolygon square_closed 0) = square_closed \<and>
   snd (getTilesInPolygon (fst (getTilesInPolygon square_closed 0)) 0) =
     Inr [(0, 0, 0), (1, 0, 0), (2, 0, 0), (3, 0, 0),
          (0, 1, 0), (1, 1, 0), (2, 1, 0), (3, 1, 0),
          (0, 2, 0), (1, 2, 0), (2, 2, 0), (3, 2, 0)] \<and>
   fst (getTilesInPolygon triangle_closed 0) = triangle_closed \<and>
   snd (getTilesInPolygon (fst (getTilesInPolygon triangle_closed 0)) 0) = Inl LengthError \<and>
   fst (pointInPolygon square_closed 3 0) = square_closed \<and>
   snd (pointInPolygon (fst (pointInPolygon square_closed 3 0)) 3 0) = False"
  using queries_frame[of square_closed 0 3 0] queries_frame[of triangle_closed 0 3 0]
    square_fill triangle_throws square_pip
  by simp

section \<open>Filling the square\<close>

text \<open>
  C1, as stated, fails: of the 16 cells the claim lists, the row \<open>y = 3\<close> is missing
  from the fill of the closed square, since both vertical edges end at \<open>yMax = 3\<close> and
  are removed before that scanline is filled.
\<close>

theorem square_fill_counterexample:
  "closePath square_open = Some square_closed \<and>
   \<not> isl (snd (getTilesInPolygon square_closed 0)) \<and>
   length (projr (snd (getTilesInPolygon square_closed 0))) = 12 \<and>
   (0, 3, 0) \<notin> set (projr (snd (getTilesInPolygon square_closed 0))) \<and>
   (3, 3, 0) \<notin> set (projr (snd (getTilesInPolygon square_closed 0)))"
  by (simp add: square_close square_fill)

text \<open>
  C1, amended. For the square with corners \<open>(0,0)\<close>, \<open>(0,3)\<close>, \<open>(3,3)\<close>, \<open>(3,0)\<close>, added in
  that order and then closed, \<open>getTilesInPolygon(0)\<close> returns exactly the 12 cells
  \<open>(x, y, 0)\<close> with \<open>0 \<le> x \<le> 3\<close> and \<open>0 \<le> y \<le> 2\<close>, each exactly once.
\<close>

theorem square_fill_amended:
  "closePath square_open = Some square_closed \<and>
   \<not> isl (snd (getTilesInPolygon square_closed 0)) \<and>
   set (projr (snd (getTilesInPolygon square_closed 0))) = {0, 1, 2, 3} \<times> {0, 1, 2} \<times> {0} \<and>
   distinct (projr (snd (getTilesInPolygon square_closed 0))) \<and>
   snd (getTilesInPolygon square_closed 0) =
     Inr [(0, 0, 0), (1, 0, 0), (2, 0, 0), (3, 0, 0),
      (0, 1, 0), (1, 1, 0), (2, 1, 0), (3, 1, 0),
      (0, 2, 0), (1, 2, 0), (2, 2, 0), (3, 2, 0)]"
  by (auto simp: square_close square_fill)

theorem square_fill_amended_witness:
  "length (projr (snd (getTilesInPolygon square_closed 0))) = 12 \<and>
   (3, 2, 0) \<in> set (projr (snd (getTilesInPolygon square_closed 0)))"
  using square_fill_amended by simp

section \<open>The cells of a fill\<close>

lemma fillPairs_acc: "fillPairs a y fl tiles = tiles @ fillPairs a y fl []"
proof (induction a arbitrary: tiles rule: induct_list012)
  case (3 a b rest)
  show ?case
    using "3.IH"(1)[of "tiles @ map (\<lambda>x. (x, y, fl)) [\<lceil>edge_x a\<rceil>..\<lfloor>edge_x b\<rfloor>]"]
      "3.IH"(1)[of "map (\<lambda>x. (x, y, fl)) [\<lceil>edge_x a\<rceil>..\<lfloor>edge_x b\<rfloor>]"]
    by (simp add: Let_def)
qed simp_all

lemma scanLoop_rows:
  "scanLoop edgeTable minY' maxY' fl y activeEdges tiles =
     tiles @ concat (map (\<lambda>r. fillPairs (snd r) (fst r) fl [])
                       (scanRows edgeTable minY' maxY' y activeEdges))"
proof (induction edgeTable minY' maxY' fl y activeEdges tiles rule: scanLoop.induct)
  case (1 edgeTable minY' maxY' fl y activeEdges tiles)
  show ?case
  proof (cases "y \<le> maxY'")
    case False
    then show ?thesis by (simp add: scanLoop.simps scanRows.simps)
  next
    case True
    define act2 where "act2 = filter (\<lambda>e. \<not> (yMax e = y))
       (if y - minY' < int (length edgeTable)
        then activeEdges @ edgeTable ! nat (y - minY') else activeEdges)"
    show ?thesis
    proof (cases "act2 = []")
      case e: True
      have "scanLoop edgeTable minY' maxY' fl y activeEdges tiles =
            scanLoop edgeTable minY' maxY' fl (y + 1) act2 tiles"
        using True e by (subst scanLoop.simps) (simp add: act2_def Let_def)
      moreover have "scanRows edgeTable minY' maxY' y activeEdges =
            scanRows edgeTable minY' maxY' (y + 1) act2"
        using True e by (subst scanRows.simps) (simp add: act2_def Let_def)
      moreover have "scanLoop edgeTable minY' maxY' fl (y + 1) act2 tiles =
          tiles @ concat (map (\<lambda>r. fillPairs (snd r) (fst r) fl [])
                       (scanRows edgeTable minY' maxY' (y + 1) act2))"
        using "1.IH"(1)[OF True refl refl _ e] by (simp add: act2_def)
      ultimately show ?thesis by simp
    next
      case ne: False
      define act3 where "act3 = sort_key edge_x act2"
      define act4 where "act4 = map (\<lambda>e. e\<lparr>edge_x := edge_x e + invSlope e\<rparr>) act3"
      have "scanLoop edgeTable minY' maxY' fl y activeEdges tiles =
            scanLoop edgeTable minY' maxY' fl (y + 1) act4 (fillPairs act3 y fl tiles)"
        using True ne by (subst scanLoop.simps) (simp add: act2_def act3_def act4_def Let_def)
      moreover have "scanRows edgeTable minY' maxY' y activeEdges =
            (y, act3) # scanRows edgeTable minY' maxY' (y + 1) act4"
        using True ne by (subst scanRows.simps) (simp add: act2_def act3_def act4_def Let_def)
      moreover have "scanLoop edgeTable minY' maxY' fl (y + 1) act4 (fillPairs act3 y fl tiles) =
          fillPairs act3 y fl tiles @ concat (map (\<lambda>r. fillPairs (snd r) (fst r) fl [])
                       (scanRows edgeTable minY' maxY' (y + 1) act4))"
        using "1.IH"(2)[OF True refl refl _ ne refl refl refl]
        by (simp add: act2_def act3_def act4_def)
      ultimately show ?thesis using fillPairs_acc[of act3 y fl tiles] by simp
    qed
  qed
qed

lemma scanlineFillAET_rows:
  "snd (scanlineFillAET s fl tiles) =
     tiles @ concat (map (\<lambda>r. fillPairs (snd r) (fst r) fl []) (activeRows s))"
  by (simp add: scanlineFillAET_def activeRows_def Let_def scanLoop_rows split: prod.splits)

lemma getTilesInPolygon_rows:
  "snd (getTilesInPolygon s fl) = Inr tiles \<Longrightarrow>
   tiles = (if \<not> m_closed s \<or> length (m_path s) < 3 then []
            else concat (map (\<lambda>r. fillPairs (snd r) (fst r) fl []) (activeRows s)))"
  using scanlineFillAET_rows[of s fl "[]"]
  by (auto simp: getTilesInPolygon_def Let_def reserve_def split: sum.splits prod.splits if_splits)

lemma fillPairs_cell:
  "(x, y', f) \<in> set (fillPairs a y fl []) \<Longrightarrow> y' = y \<and> f = fl"
proof (induction a rule: induct_list012)
  case (3 a b rest)
  then show ?case
    using fillPairs_acc[of rest y fl "map (\<lambda>x. (x, y, fl)) [\<lceil>edge_x a\<rceil>..\<lfloor>edge_x b\<rfloor>]"]
    by (auto simp: Let_def)
qed simp_all


lemma fillPairs_lower:
  "sorted (map edge_x a) \<Longrightarrow> (x, y', f) \<in> set (fillPairs a y fl []) \<Longrightarrow>
   \<lceil>edge_x (hd a)\<rceil> \<le> x"
proof (induction a rule: induct_list012)
  case (3 a b rest)
  from "3.prems"(2) have "(x, y', f) \<in> set (map (\<lambda>x. (x, y, fl)) [\<lceil>edge_x a\<rceil>..\<lfloor>edge_x b\<rfloor>])
      \<or> (x, y', f) \<in> set (fillPairs rest y fl [])"
    using fillPairs_acc[of rest y fl "map (\<lambda>x. (x, y, fl)) [\<lceil>edge_x a\<rceil>..\<lfloor>edge_x b\<rfloor>]"]
    by (auto simp: Let_def)
  then show ?case
  proof
    assume "(x, y', f) \<in> set (map (\<lambda>x. (x, y, fl)) [\<lceil>edge_x a\<rceil>..\<lfloor>edge_x b\<rfloor>])"
    then show ?thesis by auto
  next
    assume in_rest: "(x, y', f) \<in> set (fillPairs rest y fl [])"
    then have "rest \<noteq> []" by auto
    from "3.prems"(1) have "sorted (map edge_x rest)" by simp
    from "3.IH"(1)[OF this in_rest] have "\<lceil>edge_x (hd rest)\<rceil> \<le> x" .
    moreover have "edge_x a \<le> edge_x (hd rest)"
      using "3.prems"(1) \<open>rest \<noteq> []\<close> by (cases rest) auto
    then have "\<lceil>edge_x a\<rceil> \<le> \<lceil>edge_x (hd rest)\<rceil>" by (rule ceiling_mono)
    ultimately show ?thesis by simp
  qed
qed simp_all

lemma fillPairs_nonempty:
  "t \<in> set (fillPairs a y fl []) \<Longrightarrow> \<exists>c d r. a = c # d # r"
  by (induction a rule: induct_list012) auto

lemma fillPairs_distinct:
  "sorted (map edge_x a) \<Longrightarrow> spansApart a \<Longrightarrow> distinct (fillPairs a y fl [])"
proof (induction a rule: induct_list012)
  case (3 a b rest)
  let ?span = "map (\<lambda>x. (x, y, fl)) [\<lceil>edge_x a\<rceil>..\<lfloor>edge_x b\<rfloor>]"
  have eq: "fillPairs (a # b # rest) y fl [] = ?span @ fillPairs rest y fl []"
    using fillPairs_acc[of rest y fl ?span] by (simp add: Let_def)
  have d1: "distinct ?span" by (simp add: distinct_map inj_on_def)
  have srt: "sorted (map edge_x rest)" using "3.prems"(1) by simp
  have ap: "spansApart rest" using "3.prems"(2) by (cases rest rule: spansApart.cases) auto
  have d2: "distinct (fillPairs rest y fl [])" using "3.IH"(1)[OF srt ap] .
  have disj: "set ?span \<inter> set (fillPairs rest y fl []) = {}"
  proof (rule ccontr)
    assume "set ?span \<inter> set (fillPairs rest y fl []) \<noteq> {}"
    then obtain t where t1: "t \<in> set ?span" and t2: "t \<in> set (fillPairs rest y fl [])"
      by blast
    obtain x y' f where t: "t = (x, y', f)" by (cases t)
    note in1 = t1[unfolded t] and in2 = t2[unfolded t]
    from in2 obtain c d rest' where rest: "rest = c # d # rest'"
      using fillPairs_nonempty by blast
    from fillPairs_lower[OF srt in2] have "\<lceil>edge_x c\<rceil> \<le> x" by (simp add: rest)
    moreover from in1 have "x \<le> \<lfloor>edge_x b\<rfloor>" by auto
    moreover from "3.prems"(2) have "\<lfloor>edge_x b\<rfloor> < \<lceil>edge_x c\<rceil>" by (simp add: rest)
    ultimately show False by linarith
  qed
  from d1 d2 disj show ?case unfolding eq by simp
qed simp_all

lemma scanRows_y:
  "r \<in> set (scanRows edgeTable minY' maxY' y activeEdges) \<Longrightarrow> y \<le> fst r \<and> fst r \<le> maxY'"
proof (induction edgeTable minY' maxY' y activeEdges rule: scanRows.induct)
  case (1 edgeTable minY' maxY' y activeEdges)
  show ?case
  proof (cases "y \<le> maxY'")
    case False
    with "1.prems" show ?thesis by (simp add: scanRows.simps)
  next
    case True
    define act2 where "act2 = filter (\<lambda>e. \<not> (yMax e = y))
       (if y - minY' < int (length edgeTable)
        then activeEdges @ edgeTable ! nat (y - minY') else activeEdges)"
    show ?thesis
    proof (cases "act2 = []")
      case e: True
      have "scanRows edgeTable minY' maxY' y activeEdges =
            scanRows edgeTable minY' maxY' (y + 1) act2"
        using True e by (subst scanRows.simps) (simp add: act2_def Let_def)
      with "1.prems" have "r \<in> set (scanRows edgeTable minY' maxY' (y + 1) act2)" by simp
      moreover have "r \<in> set (scanRows edgeTable minY' maxY' (y + 1) act2) \<Longrightarrow>
           y + 1 \<le> fst r \<and> fst r \<le> maxY'"
        using "1.IH"(1)[OF True refl refl _ e] by (simp add: act2_def)
      ultimately show ?thesis by simp
    next
      case ne: False
      define act3 where "act3 = sort_key edge_x act2"
      define act4 where "act4 = map (\<lambda>e. e\<lparr>edge_x := edge_x e + invSlope e\<rparr>) act3"
      have "scanRows edgeTable minY' maxY' y activeEdges =
            (y, act3) # scanRows edgeTable minY' maxY' (y + 1) act4"
        using True ne by (subst scanRows.simps) (simp add: act2_def act3_def act4_def Let_def)
      with "1.prems" have "r = (y, act3) \<or>
           r \<in> set (scanRows edgeTable minY' maxY' (y + 1) act4)" by simp
      moreover have "r \<in> set (scanRows edgeTable minY' maxY' (y + 1) act4) \<Longrightarrow>
           y + 1 \<le> fst r \<and> fst r \<le> maxY'"
        using "1.IH"(2)[OF True refl refl _ ne refl refl] by (simp add: act2_def act3_def act4_def)
      ultimately show ?thesis using True by auto
    qed
  qed
qed

lemma scanRows_distinct:
  "list_all (\<lambda>r. spansApart (snd r)) (scanRows edgeTable minY' maxY' y activeEdges) \<Longrightarrow>
   distinct (concat (map (\<lambda>r. fillPairs (snd r) (fst r) fl [])
                       (scanRows edgeTable minY' maxY' y activeEdges)))"
proof (induction edgeTable minY' maxY' y activeEdges rule: scanRows.induct)
  case (1 edgeTable minY' maxY' y activeEdges)
  show ?case
  proof (cases "y \<le> maxY'")
    case False
    then show ?thesis by (simp add: scanRows.simps)
  next
    case True
    define act2 where "act2 = filter (\<lambda>e. \<not> (yMax e = y))
       (if y - minY' < int (length edgeTable)
        then activeEdges @ edgeTable ! nat (y - minY') else activeEdges)"
    show ?thesis
    proof (cases "act2 = []")
      case e: True
      have "scanRows edgeTable minY' maxY' y activeEdges =
            scanRows edgeTable minY' maxY' (y + 1) act2"
        using True e by (subst scanRows.simps) (simp add: act2_def Let_def)
      with "1.prems" "1.IH"(1)[OF True refl refl _ e] show ?thesis
        by (simp add: act2_def)
    next
      case ne: False
      define act3 where "act3 = sort_key edge_x act2"
      define act4 where "act4 = map (\<lambda>e. e\<lparr>edge_x := edge_x e + invSlope e\<rparr>) act3"
      define rest where "rest = scanRows edgeTable minY' maxY' (y + 1) act4"
      have rows: "scanRows edgeTable minY' maxY' y activeEdges = (y, act3) # rest"
        using True ne by (subst scanRows.simps)
          (simp add: act2_def act3_def act4_def rest_def Let_def)
      from "1.prems" have ap: "spansApart act3" and aps: "list_all (\<lambda>r. spansApart (snd r)) rest"
        by (simp_all add: rows)
      have d1: "distinct (fillPairs act3 y fl [])"
        by (rule fillPairs_distinct) (simp_all add: act3_def ap[unfolded act3_def])
      have d2: "distinct (concat (map (\<lambda>r. fillPairs (snd r) (fst r) fl []) rest))"
        using "1.IH"(2)[OF True refl refl _ ne refl refl] aps
        by (simp add: act2_def act3_def act4_def rest_def)
      have disj: "set (fillPairs act3 y fl []) \<inter>
                  set (concat (map (\<lambda>r. fillPairs (snd r) (fst r) fl []) rest)) = {}"
      proof (rule ccontr)
        assume "set (fillPairs act3 y fl []) \<inter>
                  set (concat (map (\<lambda>r. fillPairs (snd r) (fst r) fl []) rest)) \<noteq> {}"
        then obtain t where t1: "t \<in> set (fillPairs act3 y fl [])"
          and t2: "t \<in> set (concat (map (\<lambda>r. fillPairs (snd r) (fst r) fl []) rest))"
          by blast
        obtain x y' f where t: "t = (x, y', f)" by (cases t)
        note in1 = t1[unfolded t] and in2 = t2[unfolded t]
        from in1 have "y' = y" using fillPairs_cell by blast
        moreover from in2 obtain r where r: "r \<in> set rest"
          and "(x, y', f) \<in> set (fillPairs (snd r) (fst r) fl [])" by auto
        then have "y' = fst r" using fillPairs_cell by blast
        moreover from r have "y + 1 \<le> fst r" unfolding rest_def using scanRows_y by blast
        ultimately show False by simp
      qed
      from d1 d2 disj show ?thesis by (simp add: rows)
    qed
  qed
qed

section \<open>Points outside the bounding box\<close>















lemma collectKept_subset: "set (collectKept ps ks) \<subseteq> set ps"
  by (induction ps ks rule: collectKept.induct) auto





section \<open>Cells inside the polygon\<close>



















section \<open>Fill and containment\<close>









section \<open>Repeated cells\<close>

text \<open>
  C3, as stated, fails: on the closed bow-tie the two diagonals cross in the cell
  \<open>(1, 1)\<close>, the spans \<open>0..1\<close> and \<open>1..2\<close> of scanline 1 both emit it, and the fill
  contains \<open>(1, 1, 0)\<close> twice.
\<close>

theorem fill_duplicate_counterexample:
  "closePath bowtie_open = Some bowtie_closed \<and>
   \<not> isl (snd (getTilesInPolygon bowtie_closed 0)) \<and>
   \<not> distinct (projr (snd (getTilesInPolygon bowtie_closed 0)))"
  by (simp add: bowtie_close bowtie_fill)

lemma activeRows_distinct:
  assumes "list_all (\<lambda>r. spansApart (snd r)) (activeRows s)"
  shows "distinct (concat (map (\<lambda>r. fillPairs (snd r) (fst r) fl []) (activeRows s)))"
proof (cases "length (poly_of s) < 3 \<or> \<not> isValid (m_boundingBox s)")
  case True
  then have "activeRows s = []" by (auto simp: activeRows_def Let_def)
  then show ?thesis by simp
next
  case False
  define b where "b = m_boundingBox s"
  define table where
    "table = snd (buildEdgeTable s (replicate (nat (maxY b - minY b + 1)) []) (minY b))"
  from False have rows: "activeRows s = scanRows table (minY b) (maxY b) (minY b) []"
    by (simp add: activeRows_def Let_def b_def table_def)
  from assms show ?thesis unfolding rows by (rule scanRows_distinct)
qed

text \<open>
  C3, amended. For every polygon and every floor index, the collection returned by
  \<open>getTilesInPolygon\<close> (whenever it returns one) contains no repeated \<open>(x, y, floor)\<close>
  triple provided that on every scanline neighbouring spans are apart (the last cell of
  a span lies left of the first cell of the next one).
\<close>

theorem fill_distinct_spans_apart:
  "list_all (\<lambda>r. spansApart (snd r)) (activeRows s) \<Longrightarrow>
   snd (getTilesInPolygon s fl) = Inr tiles \<Longrightarrow> distinct tiles"
  using getTilesInPolygon_rows[of s fl tiles] activeRows_distinct[of s fl]
  by (simp split: if_splits)

lemma notch_close: "closePath notch_open = Some notch_closed"
  by (simp add: notch_open_def notch_closed_def eval_capture eval_rdp)

lemma notch_rows:
  "activeRows notch_closed =
     [(0, [\<lparr>yMax = 4, edge_x = 0, invSlope = 0\<rparr>, \<lparr>yMax = 2, edge_x = 2, invSlope = 0\<rparr>,
           \<lparr>yMax = 2, edge_x = 4, invSlope = 0\<rparr>, \<lparr>yMax = 4, edge_x = 6, invSlope = 0\<rparr>]),
      (1, [\<lparr>yMax = 4, edge_x = 0, invSlope = 0\<rparr>, \<lparr>yMax = 2, edge_x = 2, invSlope = 0\<rparr>,
           \<lparr>yMax = 2, edge_x = 4, invSlope = 0\<rparr>, \<lparr>yMax = 4, edge_x = 6, invSlope = 0\<rparr>]),
      (2, [\<lparr>yMax = 4, edge_x = 0, invSlope = 0\<rparr>, \<lparr>yMax = 4, edge_x = 6, invSlope = 0\<rparr>]),
      (3, [\<lparr>yMax = 4, edge_x = 0, invSlope = 0\<rparr>, \<lparr>yMax = 4, edge_x = 6, invSlope = 0\<rparr>])]"
  by (simp add: notch_closed_def activeRows_def buildEdgeTable_def poly_of_def isValid_def
      scanRows.simps Let_def)

lemma notch_fill:
  "getTilesInPolygon notch_closed 0 =
     (notch_closed,
      Inr [(0, 0, 0), (1, 0, 0), (2, 0, 0), (4, 0, 0), (5, 0, 0), (6, 0, 0),
           (0, 1, 0), (1, 1, 0), (2, 1, 0), (4, 1, 0), (5, 1, 0), (6, 1, 0),
           (0, 2, 0), (1, 2, 0), (2, 2, 0), (3, 2, 0), (4, 2, 0), (5, 2, 0), (6, 2, 0),
           (0, 3, 0), (1, 3, 0), (2, 3, 0), (3, 3, 0), (4, 3, 0), (5, 3, 0), (6, 3, 0)])"
  by (simp add: notch_closed_def eval_fill)

theorem fill_distinct_spans_apart_witness:
  "closePath notch_open = Some notch_closed \<and>
   list_all (\<lambda>r. spansApart (snd r)) (activeRows notch_closed) \<and>
   \<not> isl (snd (getTilesInPolygon notch_closed 0)) \<and>
   distinct (projr (snd (getTilesInPolygon notch_closed 0)))"
proof -
  have a: "list_all (\<lambda>r. spansApart (snd r)) (activeRows notch_closed)"
    by (simp add: notch_rows)
  have b: "snd (getTilesInPolygon notch_closed 0) =
           Inr (projr (snd (getTilesInPolygon notch_closed 0)))"
    by (simp add: notch_fill)
  from fill_distinct_spans_apart[OF a b]
  have "distinct (projr (snd (getTilesInPolygon notch_closed 0)))" .
  moreover have "\<not> isl (snd (getTilesInPolygon notch_closed 0))" by (simp add: notch_fill)
  ultimately show ?thesis using a notch_close by blast
qed

section \<open>The scan for the farthest point\<close>

lemma rdpScan_char:
  assumes "rdpScan ps s e i md mi = (md', mi')"
  shows "md \<le> md' \<and>
    (\<forall>k. i \<le> k \<and> k < e \<longrightarrow> perpendicularDistance (ps ! k) (ps ! s) (ps ! e) \<le> md') \<and>
    ((md' = md \<and> mi' = mi) \<or>
     (i \<le> mi' \<and> mi' < e \<and> perpendicularDistance (ps ! mi') (ps ! s) (ps ! e) = md' \<and>
      md < md' \<and>
      (\<forall>k. i \<le> k \<and> k < mi' \<longrightarrow> perpendicularDistance (ps ! k) (ps ! s) (ps ! e) < md')))"
  using assms
proof (induction ps s e i md mi rule: rdpScan.induct)
  case (1 points start endi i maxDist maxIndex)
  let ?D = "\<lambda>k. perpendicularDistance (points ! k) (points ! start) (points ! endi)"
  show ?case
  proof (cases "i < endi")
    case False
    with "1.prems" show ?thesis by (simp add: rdpScan.simps)
  next
    case True
    show ?thesis
    proof (cases "?D i > maxDist")
      case gt: True
      from "1.prems" True gt have "rdpScan points start endi (i + 1) (?D i) i = (md', mi')"
        by (subst (asm) rdpScan.simps) (simp add: Let_def)
      from "1.IH"(1)[OF True refl gt this]
      have ih: "?D i \<le> md'" "\<forall>k. i + 1 \<le> k \<and> k < endi \<longrightarrow> ?D k \<le> md'"
        "(md' = ?D i \<and> mi' = i) \<or>
         (i + 1 \<le> mi' \<and> mi' < endi \<and> ?D mi' = md' \<and> ?D i < md' \<and>
          (\<forall>k. i + 1 \<le> k \<and> k < mi' \<longrightarrow> ?D k < md'))"
        by blast+
      have a: "maxDist \<le> md'" using gt ih(1) by simp
      have b: "\<forall>k. i \<le> k \<and> k < endi \<longrightarrow> ?D k \<le> md'"
      proof (intro allI impI)
        fix k assume "i \<le> k \<and> k < endi"
        then have "k = i \<or> (i + 1 \<le> k \<and> k < endi)" by auto
        with ih(1,2) show "?D k \<le> md'" by blast
      qed
      from ih(3) have c: "i \<le> mi' \<and> mi' < endi \<and> ?D mi' = md' \<and> maxDist < md' \<and>
          (\<forall>k. i \<le> k \<and> k < mi' \<longrightarrow> ?D k < md')"
      proof
        assume "md' = ?D i \<and> mi' = i"
        with True gt show ?thesis by simp
      next
        assume r: "i + 1 \<le> mi' \<and> mi' < endi \<and> ?D mi' = md' \<and> ?D i < md' \<and>
          (\<forall>k. i + 1 \<le> k \<and> k < mi' \<longrightarrow> ?D k < md')"
        have "\<forall>k. i \<le> k \<and> k < mi' \<longrightarrow> ?D k < md'"
        proof (intro allI impI)
          fix k assume "i \<le> k \<and> k < mi'"
          then have "k = i \<or> (i + 1 \<le> k \<and> k < mi')" by auto
          with r show "?D k < md'" by blast
        qed
        with r gt show ?thesis by auto
      qed
      from a b c show ?thesis by blast
    next
      case le: False
      from "1.prems" True le
      have "rdpScan points start endi (i + 1) maxDist maxIndex = (md', mi')"
        by (subst (asm) rdpScan.simps) (simp add: Let_def)
      from "1.IH"(2)[OF True refl le this]
      have ih: "maxDist \<le> md'" "\<forall>k. i + 1 \<le> k \<and> k < endi \<longrightarrow> ?D k \<le> md'"
        "(md' = maxDist \<and> mi' = maxIndex) \<or>
         (i + 1 \<le> mi' \<and> mi' < endi \<and> ?D mi' = md' \<and> maxDist < md' \<and>
          (\<forall>k. i + 1 \<le> k \<and> k < mi' \<longrightarrow> ?D k < md'))"
        by blast+
      have di: "?D i \<le> maxDist" using le by simp
      have b: "\<forall>k. i \<le> k \<and> k < endi \<longrightarrow> ?D k \<le> md'"
      proof (intro allI impI)
        fix k assume "i \<le> k \<and> k < endi"
        then have "k = i \<or> (i + 1 \<le> k \<and> k < endi)" by auto
        with ih(1,2) di show "?D k \<le> md'" by auto
      qed
      from ih(3) have c: "(md' = maxDist \<and> mi' = maxIndex) \<or>
         (i \<le> mi' \<and> mi' < endi \<and> ?D mi' = md' \<and> maxDist < md' \<and>
          (\<forall>k. i \<le> k \<and> k < mi' \<longrightarrow> ?D k < md'))"
      proof
        assume "md' = maxDist \<and> mi' = maxIndex"
        then show ?thesis by blast
      next
        assume r: "i + 1 \<le> mi' \<and> mi' < endi \<and> ?D mi' = md' \<and> maxDist < md' \<and>
          (\<forall>k. i + 1 \<le> k \<and> k < mi' \<longrightarrow> ?D k < md')"
        have "\<forall>k. i \<le> k \<and> k < mi' \<longrightarrow> ?D k < md'"
        proof (intro allI impI)
          fix k assume "i \<le> k \<and> k < mi'"
          then have "k = i \<or> (i + 1 \<le> k \<and> k < mi')" by auto
          with r di show "?D k < md'" by auto
        qed
        with r show ?thesis by auto
      qed
      from ih(1) b c show ?thesis by blast
    qed
  qed
qed

text \<open>The scan keeps its state when no distance exceeds it.\<close>

lemma rdpScan_stay:
  assumes "\<forall>k. i \<le> k \<and> k < e \<longrightarrow> perpendicularDistance (ps ! k) (ps ! s) (ps ! e) \<le> md"
  shows "rdpScan ps s e i md mi = (md, mi)"
proof -
  obtain md' mi' where r: "rdpScan ps s e i md mi = (md', mi')"
    by (cases "rdpScan ps s e i md mi")
  from rdpScan_char[OF r] assms have "md' = md \<and> mi' = mi"
    by (smt (verit, best))
  with r show ?thesis by simp
qed

text \<open>The scan returns the first index whose distance is the largest.\<close>

lemma rdpScan_unique:
  assumes "i \<le> c" and "c < e"
    and "perpendicularDistance (ps ! c) (ps ! s) (ps ! e) = M" and "md < M"
    and "\<forall>k. i \<le> k \<and> k < c \<longrightarrow> perpendicularDistance (ps ! k) (ps ! s) (ps ! e) < M"
    and "\<forall>k. i \<le> k \<and> k < e \<longrightarrow> perpendicularDistance (ps ! k) (ps ! s) (ps ! e) \<le> M"
  shows "rdpScan ps s e i md mi = (M, c)"
proof -
  let ?D = "\<lambda>k. perpendicularDistance (ps ! k) (ps ! s) (ps ! e)"
  obtain md' mi' where r: "rdpScan ps s e i md mi = (md', mi')"
    by (cases "rdpScan ps s e i md mi")
  from rdpScan_char[OF r] have ch: "md \<le> md'" "\<forall>k. i \<le> k \<and> k < e \<longrightarrow> ?D k \<le> md'"
    "(md' = md \<and> mi' = mi) \<or>
     (i \<le> mi' \<and> mi' < e \<and> ?D mi' = md' \<and> md < md' \<and> (\<forall>k. i \<le> k \<and> k < mi' \<longrightarrow> ?D k < md'))"
    by blast+
  from ch(2) assms(1,2,3) have "M \<le> md'" by blast
  with assms(4) ch(3) have chg: "i \<le> mi'" "mi' < e" "?D mi' = md'"
    "\<forall>k. i \<le> k \<and> k < mi' \<longrightarrow> ?D k < md'" by auto
  from assms(6) chg(1,2,3) have "md' \<le> M" by blast
  with \<open>M \<le> md'\<close> have eq: "md' = M" by simp
  have "\<not> mi' < c" using assms(5) chg(1,3) eq by force
  moreover have "\<not> c < mi'" using chg(4) assms(1,3) eq by force
  ultimately have "mi' = c" by simp
  with eq r show ?thesis by simp
qed

text \<open>The scan of a range is the scan of its segment, with the indices shifted.\<close>

lemma rdpScan_segment:
  assumes "\<forall>k \<le> e - s. qs ! k = ps ! (s + k)" and "s \<le> e"
  shows "rdpScan ps s e (s + i) md (s + mi) =
           (case rdpScan qs 0 (e - s) i md mi of (d, k) \<Rightarrow> (d, s + k))"
proof -
  let ?Dq = "\<lambda>k. perpendicularDistance (qs ! k) (qs ! 0) (qs ! (e - s))"
  let ?Dp = "\<lambda>k. perpendicularDistance (ps ! k) (ps ! s) (ps ! e)"
  have D: "?Dq k = ?Dp (s + k)" if "k \<le> e - s" for k
    using assms that by simp
  obtain a b where r: "rdpScan qs 0 (e - s) i md mi = (a, b)"
    by (cases "rdpScan qs 0 (e - s) i md mi")
  from rdpScan_char[OF r] have ch: "\<forall>k. i \<le> k \<and> k < e - s \<longrightarrow> ?Dq k \<le> a"
    "(a = md \<and> b = mi) \<or>
     (i \<le> b \<and> b < e - s \<and> ?Dq b = a \<and> md < a \<and> (\<forall>k. i \<le> k \<and> k < b \<longrightarrow> ?Dq k < a))"
    by blast+
  have le: "\<forall>k. s + i \<le> k \<and> k < e \<longrightarrow> ?Dp k \<le> a"
  proof (intro allI impI)
    fix k assume k: "s + i \<le> k \<and> k < e"
    then have "i \<le> k - s \<and> k - s < e - s" by auto
    with ch(1) have "?Dq (k - s) \<le> a" by blast
    moreover have "?Dq (k - s) = ?Dp (s + (k - s))" using k by (intro D) auto
    ultimately show "?Dp k \<le> a" using k by simp
  qed
  from ch(2) have "rdpScan ps s e (s + i) md (s + mi) = (a, s + b)"
  proof
    assume "a = md \<and> b = mi"
    with le show ?thesis by (simp add: rdpScan_stay)
  next
    assume c: "i \<le> b \<and> b < e - s \<and> ?Dq b = a \<and> md < a \<and> (\<forall>k. i \<le> k \<and> k < b \<longrightarrow> ?Dq k < a)"
    have lt: "\<forall>k. s + i \<le> k \<and> k < s + b \<longrightarrow> ?Dp k < a"
    proof (intro allI impI)
      fix k assume k: "s + i \<le> k \<and> k < s + b"
      then have "i \<le> k - s \<and> k - s < b" by auto
      with c have "?Dq (k - s) < a" by blast
      moreover have "?Dq (k - s) = ?Dp (s + (k - s))" using k c by (intro D) auto
      ultimately show "?Dp k < a" using k by simp
    qed
    have "?Dp (s + b) = a" using c D[of b] by simp
    with c lt le show ?thesis by (intro rdpScan_unique) auto
  qed
  with r show ?thesis by simp
qed

lemma segment_nth: "e < length xs \<Longrightarrow> k \<le> e - s \<Longrightarrow> s \<le> e \<Longrightarrow> segment xs s e ! k = xs ! (s + k)"
  by (simp add: segment_def)

lemma segment_length: "e < length xs \<Longrightarrow> s \<le> e \<Longrightarrow> length (segment xs s e) = e + 1 - s"
  by (simp add: segment_def)

lemma segment_whole: "xs \<noteq> [] \<Longrightarrow> segment xs 0 (length xs - 1) = xs"
  by (simp add: segment_def)

lemma segment_take:
  "e < length xs \<Longrightarrow> s \<le> m \<Longrightarrow> m \<le> e \<Longrightarrow> take (m - s + 1) (segment xs s e) = segment xs s m"
  by (simp add: segment_def min_def Suc_diff_le)

lemma segment_drop:
  "e < length xs \<Longrightarrow> s \<le> m \<Longrightarrow> m \<le> e \<Longrightarrow> drop (m - s) (segment xs s e) = segment xs m e"
  by (simp add: segment_def drop_take)

lemma rdpScan_of_segment:
  assumes "e < length ps" and "s \<le> e"
  shows "rdpScan ps s e (s + 1) 0 s =
           (case rdpScan (segment ps s e) 0 (e - s) 1 0 0 of (d, k) \<Rightarrow> (d, s + k))"
  using rdpScan_segment[of e s "segment ps s e" ps 1 0 0] assms
  by (simp add: segment_nth)

section \<open>The marks of a range\<close>

lemma rdpScan_index:
  assumes "rdpScan ps 0 n 1 0 0 = (md, mi)"
  shows "(md = 0 \<and> mi = 0) \<or> (0 < md \<and> 1 \<le> mi \<and> mi < n)"
  using rdpScan_result[OF assms] by auto

lemma rdpMarks_length: "rdpMarks eps ps m \<Longrightarrow> length m = length ps"
proof (induction rule: rdpMarks.induct)
  case (marks_split ps md mi eps l r)
  from rdpScan_index[OF marks_split(2)] marks_split(1) have "mi < length ps - 1" by auto
  with marks_split show ?case by auto
qed auto

lemma rdpMarks_ends: "rdpMarks eps ps m \<Longrightarrow> ps \<noteq> [] \<Longrightarrow> m \<noteq> [] \<and> hd m \<and> last m"
proof (induction rule: rdpMarks.induct)
  case (marks_short ps eps)
  then show ?case by (cases ps) (auto simp: last_replicate)
next
  case (marks_flat ps md mi eps)
  then show ?case by simp
next
  case (marks_split ps md mi eps l r)
  from rdpScan_index[OF marks_split(2)] marks_split(1) have mi: "mi < length ps - 1" by auto
  then have ne: "take (mi + 1) ps \<noteq> []" "drop mi ps \<noteq> []" using marks_split(1) by auto
  with marks_split have l: "l \<noteq> []" "hd l" "last l" and r: "r \<noteq> []" "hd r" "last r" by auto
  show ?case
  proof (cases "tl r = []")
    case True
    with l show ?thesis by simp
  next
    case False
    with l r show ?thesis by (simp add: last_tl)
  qed
qed

lemma marks_in_place:
  assumes "s \<le> e" and "e < length keep" and "length m = e + 1 - s"
    and "\<forall>k < length m. m ! k = keep ! (s + k)"
  shows "take s keep @ m @ drop (e + 1) keep = keep"
proof -
  have "m = take (e + 1 - s) (drop s keep)"
    using assms by (intro nth_equalityI) auto
  then have "take s keep @ m = take (s + (e + 1 - s)) keep"
    by (simp only: take_add)
  moreover have "s + (e + 1 - s) = e + 1" using assms(1) by simp
  ultimately have "take s keep @ m = take (e + 1) keep" by simp
  then show ?thesis by (metis append_assoc append_take_drop_id)
qed

lemma marks_short_in_place:
  assumes "rangeOpen points s e keep" and "e < s + 2"
  shows "take s keep @ replicate (length (segment points s e)) True @ drop (e + 1) keep = keep"
proof -
  from assms(1) have r: "s \<le> e" "e < length points" "length keep = length points"
    "keep ! s" "keep ! e" by (simp_all add: rangeOpen_def)
  have len: "length (segment points s e) = e + 1 - s" using r by (simp add: segment_length)
  have "\<forall>k < e + 1 - s. keep ! (s + k)"
  proof (intro allI impI)
    fix k assume "k < e + 1 - s"
    with assms(2) r(1) have "s + k = s \<or> s + k = e" by auto
    with r(4,5) show "keep ! (s + k)" by auto
  qed
  then show ?thesis unfolding len using r by (intro marks_in_place) auto
qed

lemma marks_flat_in_place:
  assumes "rangeOpen points s e keep" and "\<not> e < s + 2"
  shows "take s keep @ (True # replicate (length (segment points s e) - 2) False @ [True])
           @ drop (e + 1) keep = keep"
proof -
  from assms(1) have r: "s \<le> e" "e < length points" "length keep = length points"
    "keep ! s" "keep ! e" "\<forall>i. s < i \<and> i < e \<longrightarrow> \<not> keep ! i" by (simp_all add: rangeOpen_def)
  have len: "length (segment points s e) = e + 1 - s" using r by (simp add: segment_length)
  let ?m = "True # replicate (e + 1 - s - 2) False @ [True]"
  have lm: "length ?m = e + 1 - s" using assms(2) by simp
  have "\<forall>k < length ?m. ?m ! k = keep ! (s + k)"
  proof (intro allI impI)
    fix k assume k: "k < length ?m"
    consider "k = 0" | "0 < k" "k < e - s" | "k = e - s" using k lm by linarith
    then show "?m ! k = keep ! (s + k)"
    proof cases
      case 1
      with r(4) show ?thesis by simp
    next
      case 2
      then have "s < s + k \<and> s + k < e" by auto
      with r(6) have "\<not> keep ! (s + k)" by blast
      moreover have "?m ! k = False" using 2 by (simp add: nth_Cons' nth_append)
      ultimately show ?thesis by simp
    next
      case 3
      then have "?m ! k = True" using assms(2) by (simp add: nth_Cons' nth_append)
      with 3 r(1,5) show ?thesis by simp
    qed
  qed
  then show ?thesis unfolding len using r lm by (intro marks_in_place) auto
qed

text \<open>The two recursive calls, put together.\<close>

lemma marks_split_in_place:
  assumes ro: "rangeOpen points s e keep" and mi: "s \<le> mi" "mi < e"
    and l: "length l = mi + 1 - s" "last l" and r: "r \<noteq> []" "hd r"
    and k1: "k1 = take s (keep[mi := True]) @ l @ drop (mi + 1) (keep[mi := True])"
  shows "take mi k1 @ r @ drop (e + 1) k1 = take s keep @ (l @ tl r) @ drop (e + 1) keep"
    and "rangeOpen points mi e k1"
proof -
  from ro have p: "e < length points" "length keep = length points" "keep ! e"
    "\<forall>i. s < i \<and> i < e \<longrightarrow> \<not> keep ! i" by (simp_all add: rangeOpen_def)
  define front where "front = take s keep @ l"
  have k1': "k1 = front @ drop (mi + 1) keep"
    using mi by (simp add: k1 front_def)
  have lne: "l \<noteq> []" using l(1) mi by auto
  have front: "length front = mi + 1" using mi p l(1) by (simp add: front_def)
  have bl: "take (mi - s) l = butlast l" using l(1) by (simp add: butlast_conv_take)
  have tk: "take mi k1 = take s keep @ butlast l"
    using mi p l(1) bl by (simp add: k1' front_def)
  have "e + 1 - (mi + 1) + (mi + 1) = e + 1" using mi by simp
  then have dr: "drop (e + 1) k1 = drop (e + 1) keep"
    using mi by (simp add: k1' front)
  have "l @ tl r = butlast l @ [last l] @ tl r" using lne by simp
  also have "[last l] @ tl r = r" using l(2) r by (cases r) auto
  finally have m: "l @ tl r = butlast l @ r" .
  show "take mi k1 @ r @ drop (e + 1) k1 = take s keep @ (l @ tl r) @ drop (e + 1) keep"
    unfolding tk dr m by simp
  have len: "length k1 = length points" using mi p front by (simp add: k1')
  have at_mi: "k1 ! mi = last l"
  proof -
    have "k1 ! mi = front ! mi"
      using front by (simp add: k1' nth_append)
    also have "\<dots> = l ! (mi - s)" using mi p by (simp add: front_def nth_append)
    also have "\<dots> = last l" using lne l(1) by (simp add: last_conv_nth)
    finally show ?thesis .
  qed
  have after: "k1 ! i = keep ! i" if "mi < i" "i < length keep" for i
  proof -
    have "k1 ! i = drop (mi + 1) keep ! (i - (mi + 1))"
      using front that by (simp add: k1' nth_append)
    also have "\<dots> = keep ! i" using that by simp
    finally show ?thesis .
  qed
  show "rangeOpen points mi e k1"
    unfolding rangeOpen_def using mi p len at_mi l(2) after by auto
qed

lemma rangeOpen_left:
  assumes "rangeOpen points s e keep" and "s \<le> mi" and "mi < e"
  shows "rangeOpen points s mi (keep[mi := True])"
  using assms by (auto simp: rangeOpen_def nth_list_update)

text \<open>What \<open>rdpSimplify\<close> returns is the old \<open>keep\<close> with the marks of the range put in.\<close>

lemma rdpSimplify_marks:
  assumes "rdpSimplify points s e eps keep = Some keep'"
  shows "rangeOpen points s e keep \<longrightarrow>
         (\<exists>m. rdpMarks eps (segment points s e) m \<and>
              keep' = take s keep @ m @ drop (e + 1) keep)"
proof (rule rdpSimplify.raw_induct[OF _ assms])
  fix f points s e eps keep y
  assume IH: "\<And>points s e eps keep y. f points s e eps keep = Some y \<Longrightarrow>
     rangeOpen points s e keep \<longrightarrow>
         (\<exists>m. rdpMarks eps (segment points s e) m \<and> y = take s keep @ m @ drop (e + 1) keep)"
  assume body: "(if e < s + 2 then Some keep
      else case rdpScan points s e (s + 1) 0 s of
           (maxDist, maxIndex) \<Rightarrow>
             if eps < maxDist
             then Option.bind (f points s maxIndex eps (keep[maxIndex := True]))
                   (f points maxIndex e eps)
             else Some keep) = Some y"
  show "rangeOpen points s e keep \<longrightarrow>
         (\<exists>m. rdpMarks eps (segment points s e) m \<and> y = take s keep @ m @ drop (e + 1) keep)"
  proof
    assume ro: "rangeOpen points s e keep"
    then have se: "s \<le> e" "e < length points" by (simp_all add: rangeOpen_def)
    let ?seg = "segment points s e"
    have len: "length ?seg = e + 1 - s" using se by (simp add: segment_length)
    show "\<exists>m. rdpMarks eps ?seg m \<and> y = take s keep @ m @ drop (e + 1) keep"
    proof (cases "e < s + 2")
      case True
      with body have y: "y = keep" by simp
      from True len have "length ?seg < 3" by simp
      then have "rdpMarks eps ?seg (replicate (length ?seg) True)" by (rule marks_short)
      with marks_short_in_place[OF ro True] y show ?thesis by metis
    next
      case False
      obtain md mi' where scan': "rdpScan ?seg 0 (e - s) 1 0 0 = (md, mi')"
        by (cases "rdpScan ?seg 0 (e - s) 1 0 0")
      have e1: "length ?seg - 1 = e - s" using len se by simp
      have scan: "rdpScan ?seg 0 (length ?seg - 1) 1 0 0 = (md, mi')"
        using scan' by (simp only: e1)
      from rdpScan_of_segment[OF se(2,1)] scan'
      have pscan: "rdpScan points s e (s + 1) 0 s = (md, s + mi')" by simp
      from False len have len3: "3 \<le> length ?seg" by simp
      show ?thesis
      proof (cases "eps < md")
        case flat: False
        with body False pscan have y: "y = keep" by simp
        from len3 scan flat have "rdpMarks eps ?seg (True # replicate (length ?seg - 2) False @ [True])"
          by (rule marks_flat)
        with marks_flat_in_place[OF ro False] y show ?thesis by metis
      next
        case split: True
        define mi where "mi = s + mi'"
        from rdpScan_index[OF scan] have "mi' < length ?seg - 1" using len3 by auto
        then have mi: "s \<le> mi" "mi < e" using e1 by (simp_all add: mi_def)
        from body False pscan split obtain k1 where
          c1: "f points s mi eps (keep[mi := True]) = Some k1" and c2: "f points mi e eps k1 = Some y"
          by (auto simp: mi_def bind_eq_Some_conv)
        from IH[OF c1] rangeOpen_left[OF ro mi] obtain l where
          l: "rdpMarks eps (segment points s mi) l"
          and k1: "k1 = take s (keep[mi := True]) @ l @ drop (mi + 1) (keep[mi := True])"
          by blast
        have segl: "segment points s mi \<noteq> []" "length (segment points s mi) = mi + 1 - s"
          using mi se by (auto simp: segment_def)
        from rdpMarks_length[OF l] rdpMarks_ends[OF l segl(1)] segl(2)
        have lp: "length l = mi + 1 - s" "last l" by simp_all
        have ro2: "rangeOpen points mi e k1"
          if "r \<noteq> []" "hd r" for r :: "bool list"
          using marks_split_in_place(2)[OF ro mi lp that k1] .
        have "rangeOpen points mi e k1" using ro2[of "[True]"] by simp
        from IH[OF c2] this obtain r where
          r: "rdpMarks eps (segment points mi e) r"
          and y: "y = take mi k1 @ r @ drop (e + 1) k1"
          by blast
        have segr: "segment points mi e \<noteq> []" using mi se by (auto simp: segment_def)
        from rdpMarks_ends[OF r segr] have rp: "r \<noteq> []" "hd r" by simp_all
        have "take (mi' + 1) ?seg = segment points s mi"
          using segment_take[of e points s mi] se mi by (simp add: mi_def)
        moreover have "drop mi' ?seg = segment points mi e"
          using segment_drop[of e points s mi] se mi by (simp add: mi_def)
        ultimately have "rdpMarks eps ?seg (l @ tl r)"
          using marks_split[OF len3 scan _ _ _, of eps l r] split l r by simp
        moreover have "y = take s keep @ (l @ tl r) @ drop (e + 1) keep"
          using marks_split_in_place(1)[OF ro mi lp rp k1] y by simp
        ultimately show ?thesis by blast
      qed
    qed
  qed
qed

text \<open>And the other way round: a range with marks is a call that returns them.\<close>

lemma marks_rdpSimplify:
  assumes "rdpMarks eps ps m"
  shows "ps = segment points s e \<Longrightarrow> rangeOpen points s e keep \<Longrightarrow>
         rdpSimplify points s e eps keep = Some (take s keep @ m @ drop (e + 1) keep)"
  using assms
proof (induction arbitrary: s e keep rule: rdpMarks.induct)
  case (marks_short ps eps)
  from marks_short(3) have se: "s \<le> e" "e < length points" by (simp_all add: rangeOpen_def)
  with marks_short(1,2) have lt: "e < s + 2" by (simp add: segment_length)
  then have "rdpSimplify points s e eps keep = Some keep" by (subst rdpSimplify.simps) simp
  with marks_short_in_place[OF marks_short(3) lt] marks_short(2) show ?case by simp
next
  case (marks_flat ps md mi eps)
  from marks_flat(5) have se: "s \<le> e" "e < length points" by (simp_all add: rangeOpen_def)
  with marks_flat(1,4) have ge: "\<not> e < s + 2" and e1: "length ps - 1 = e - s"
    by (simp_all add: segment_length)
  have e1': "length (segment points s e) - 1 = e - s" using se by (simp add: segment_length)
  have "rdpScan (segment points s e) 0 (e - s) 1 0 0 = (md, mi)"
    using marks_flat(2)[unfolded marks_flat(4)] by (simp only: e1')
  with rdpScan_of_segment[OF se(2,1)]
  have pscan: "rdpScan points s e (s + 1) 0 s = (md, s + mi)" by simp
  with ge marks_flat(3) have "rdpSimplify points s e eps keep = Some keep"
    by (subst rdpSimplify.simps) simp
  with marks_flat_in_place[OF marks_flat(5) ge] marks_flat(4) show ?case by simp
next
  case (marks_split ps md mi' eps l r)
  note ro = marks_split(9)
  from ro have se: "s \<le> e" "e < length points" by (simp_all add: rangeOpen_def)
  with marks_split(1,8) have ge: "\<not> e < s + 2" and e1: "length ps - 1 = e - s"
    by (simp_all add: segment_length)
  have e1': "length (segment points s e) - 1 = e - s" using se by (simp add: segment_length)
  have "rdpScan (segment points s e) 0 (e - s) 1 0 0 = (md, mi')"
    using marks_split(2)[unfolded marks_split(8)] by (simp only: e1')
  with rdpScan_of_segment[OF se(2,1)]
  have pscan: "rdpScan points s e (s + 1) 0 s = (md, s + mi')" by simp
  define mi where "mi = s + mi'"
  from rdpScan_index[OF marks_split(2)] marks_split(1) have "mi' < length ps - 1" by auto
  then have mi: "s \<le> mi" "mi < e" using e1 by (simp_all add: mi_def)
  have tk: "take (mi' + 1) ps = segment points s mi"
    using segment_take[of e points s mi] se mi marks_split(8) by (simp add: mi_def)
  have dr: "drop mi' ps = segment points mi e"
    using segment_drop[of e points s mi] se mi marks_split(8) by (simp add: mi_def)
  define k1 where "k1 = take s (keep[mi := True]) @ l @ drop (mi + 1) (keep[mi := True])"
  have c1: "rdpSimplify points s mi eps (keep[mi := True]) = Some k1"
    unfolding k1_def using marks_split(6)[OF tk rangeOpen_left[OF ro mi]] .
  have segl: "segment points s mi \<noteq> []" "length (segment points s mi) = mi + 1 - s"
    using mi se by (auto simp: segment_def)
  note l' = marks_split(4)[unfolded tk] and r' = marks_split(5)[unfolded dr]
  from rdpMarks_length[OF l'] rdpMarks_ends[OF l' segl(1)] segl(2)
  have lp: "length l = mi + 1 - s" "last l" by simp_all
  have segr: "segment points mi e \<noteq> []" using mi se by (auto simp: segment_def)
  from rdpMarks_ends[OF r' segr] have rp: "r \<noteq> []" "hd r" by simp_all
  note comp = marks_split_in_place[OF ro mi lp rp k1_def]
  have c2: "rdpSimplify points mi e eps k1 = Some (take mi k1 @ r @ drop (e + 1) k1)"
    using marks_split(7)[OF dr comp(2)] .
  have "rdpSimplify points s e eps keep = Some (take mi k1 @ r @ drop (e + 1) k1)"
    using ge pscan marks_split(3) c1 c2 by (subst rdpSimplify.simps) (simp add: mi_def)
  with comp(1) show ?case by simp
qed

section \<open>The kept points\<close>

lemma collectKept_append:
  "length xs = length ms \<Longrightarrow>
   collectKept (xs @ ys) (ms @ ns) = collectKept xs ms @ collectKept ys ns"
  by (induction xs ms rule: list_induct2) auto

lemma collectKept_all: "collectKept xs (replicate (length xs) True) = xs"
  by (induction xs) auto

lemma collectKept_none: "collectKept xs (replicate n False) = []"
  by (induction xs arbitrary: n) (auto simp: replicate_Suc[symmetric] split: nat.splits
      simp del: replicate_Suc, (case_tac n; simp)+)

lemma marks_shape:
  assumes "length m = length ps" and "2 \<le> length ps" and "hd m" and "last m"
  obtains mid mm where "ps = hd ps # mid @ [last ps]" and "m = True # mm @ [True]"
    and "length mm = length mid"
proof -
  have ne: "ps \<noteq> []" "tl ps \<noteq> []" using assms(2) by (cases ps; auto)+
  have ne': "m \<noteq> []" "tl m \<noteq> []" using assms(1,2) by (cases m; auto)+
  have a: "ps = hd ps # butlast (tl ps) @ [last ps]"
    using ne by (cases ps) auto
  have "m = hd m # butlast (tl m) @ [last m]"
    using ne' by (cases m) auto
  with assms(3,4) have b: "m = True # butlast (tl m) @ [True]" by simp
  have c: "length (butlast (tl m)) = length (butlast (tl ps))" using assms(1) by simp
  from a b c show ?thesis by (rule that)
qed

lemma collectKept_ends:
  assumes "length m = length ps" and "2 \<le> length ps" and "hd m" and "last m"
  shows "2 \<le> length (collectKept ps m)"
    and "hd (collectKept ps m) = hd ps"
    and "last (collectKept ps m) = last ps"
proof -
  from assms obtain mid mm where ps: "ps = hd ps # mid @ [last ps]"
    and m: "m = True # mm @ [True]" and len: "length mm = length mid"
    by (rule marks_shape)
  have "collectKept ps m = collectKept (hd ps # mid @ [last ps]) (True # mm @ [True])"
    using ps m by simp
  also have "\<dots> = hd ps # collectKept mid mm @ [last ps]"
    using len by (simp add: collectKept_append)
  finally have ck: "collectKept ps m = hd ps # collectKept mid mm @ [last ps]" .
  show "2 \<le> length (collectKept ps m)" "hd (collectKept ps m) = hd ps"
    "last (collectKept ps m) = last ps"
    by (simp_all add: ck)
qed

lemma collectKept_flat:
  assumes "2 \<le> length ps"
  shows "collectKept ps (True # replicate (length ps - 2) False @ [True]) = [hd ps, last ps]"
proof -
  let ?m = "True # replicate (length ps - 2) False @ [True]"
  have lm: "length ?m = length ps" using assms by simp
  have hm: "hd ?m" and tm: "last ?m" by simp_all
  obtain mid mm where ps: "ps = hd ps # mid @ [last ps]"
    and m: "?m = True # mm @ [True]" and len: "length mm = length mid"
    using marks_shape[OF lm assms hm tm] by blast
  from m have "mm = replicate (length ps - 2) False" by simp
  then have "collectKept mid mm = []" by (simp add: collectKept_none)
  moreover have "collectKept ps ?m = collectKept (hd ps # mid @ [last ps]) (True # mm @ [True])"
    using ps m by simp
  ultimately show ?thesis using len by (simp add: collectKept_append)
qed

text \<open>
  The kept points of a split range: those of the left half without its last point,
  followed by those of the right half, which starts with that point.
\<close>

lemma collectKept_split:
  assumes l: "rdpMarks eps (take (mi + 1) ps) l" and r: "rdpMarks eps (drop mi ps) r"
    and mi: "mi + 1 < length ps"
  shows "collectKept ps (l @ tl r) =
           butlast (collectKept (take (mi + 1) ps) l) @ collectKept (drop mi ps) r"
    and "collectKept (take (mi + 1) ps) l =
           collectKept (take mi ps) (butlast l) @ [ps ! mi]"
    and "collectKept (drop mi ps) r = ps ! mi # collectKept (drop (mi + 1) ps) (tl r)"
proof -
  have tne: "take (mi + 1) ps \<noteq> []" and dne: "drop mi ps \<noteq> []" using mi by auto
  from rdpMarks_length[OF l] mi have ll: "length l = mi + 1" by simp
  from rdpMarks_ends[OF l tne] have le: "l \<noteq> []" "last l" by simp_all
  from rdpMarks_length[OF r] mi have lr: "length r = length ps - mi" by simp
  from rdpMarks_ends[OF r dne] have re: "r \<noteq> []" "hd r" by simp_all
  have l_eq: "l = butlast l @ [True]" using le by (metis append_butlast_last_id)
  have r_eq: "r = True # tl r" using re by (cases r) auto
  have t_eq: "take (mi + 1) ps = take mi ps @ [ps ! mi]"
    using mi by (simp add: take_Suc_conv_app_nth)
  have d_eq: "drop mi ps = ps ! mi # drop (mi + 1) ps"
    using mi by (simp add: Cons_nth_drop_Suc)
  have bl: "length (butlast l) = length (take mi ps)" using ll mi by simp
  have "collectKept (take (mi + 1) ps) l =
          collectKept (take mi ps @ [ps ! mi]) (butlast l @ [True])"
    using l_eq t_eq by simp
  also have "\<dots> = collectKept (take mi ps) (butlast l) @ [ps ! mi]"
    using bl by (simp add: collectKept_append)
  finally show L: "collectKept (take (mi + 1) ps) l =
           collectKept (take mi ps) (butlast l) @ [ps ! mi]" .
  have "collectKept (drop mi ps) r = collectKept (ps ! mi # drop (mi + 1) ps) (True # tl r)"
    using r_eq d_eq by simp
  then show R: "collectKept (drop mi ps) r = ps ! mi # collectKept (drop (mi + 1) ps) (tl r)"
    by simp
  have "collectKept ps (l @ tl r) =
          collectKept (take (mi + 1) ps @ drop (mi + 1) ps) (l @ tl r)" by simp
  also have "\<dots> = collectKept (take (mi + 1) ps) l @ collectKept (drop (mi + 1) ps) (tl r)"
    using ll mi by (intro collectKept_append) simp
  finally show "collectKept ps (l @ tl r) =
           butlast (collectKept (take (mi + 1) ps) l) @ collectKept (drop mi ps) r"
    unfolding L R by simp
qed

section \<open>Every raw point is within the tolerance\<close>

lemma perpendicularDistance_start: "perpendicularDistance a a b = 0"
  by (simp add: perpendicularDistance_def distanceTo_def Let_def)

lemma perpendicularDistance_end: "perpendicularDistance b a b = 0"
  by (simp add: perpendicularDistance_def distanceTo_def Let_def mult.commute)


section \<open>Simplifying twice\<close>

lemma rdpMarks_short_inv:
  "rdpMarks eps ps m \<Longrightarrow> length ps < 3 \<Longrightarrow> m = replicate (length ps) True"
  by (cases rule: rdpMarks.cases) auto

text \<open>The kept points of a range, simplified again, are all kept.\<close>

lemma rdpMarks_idem:
  assumes "rdpMarks eps ps m"
  shows "rdpMarks eps (collectKept ps m) (replicate (length (collectKept ps m)) True)"
  using assms
proof (induction rule: rdpMarks.induct)
  case (marks_short ps eps)
  then show ?case unfolding collectKept_all by (rule rdpMarks.marks_short)
next
  case (marks_flat ps md mi eps)
  have ck: "collectKept ps (True # replicate (length ps - 2) False @ [True]) = [hd ps, last ps]"
    using marks_flat(1) by (intro collectKept_flat) simp
  have "rdpMarks eps [hd ps, last ps] (replicate (length [hd ps, last ps]) True)"
    by (rule rdpMarks.marks_short) simp
  then show ?case unfolding ck .
next
  case (marks_split ps md mi eps l r)
  let ?n = "length ps"
  let ?L = "collectKept (take (mi + 1) ps) l"
  let ?R = "collectKept (drop mi ps) r"
  let ?f = "\<lambda>p. perpendicularDistance p (ps ! 0) (ps ! (?n - 1))"
  note scan = marks_split(2)
  from rdpScan_index[OF scan] have idx: "(md = 0 \<and> mi = 0) \<or> (0 < md \<and> 1 \<le> mi \<and> mi < ?n - 1)" .
  show ?case
  proof (cases "mi = 0")
    case True
    from marks_split(4) True have "l = [True]"
      using rdpMarks_short_inv[of eps "take 1 ps" l] marks_split(1) by simp
    moreover from marks_split(5) True have r: "rdpMarks eps ps r" by simp
    have "ps \<noteq> []" using marks_split(1) by auto
    from rdpMarks_ends[OF r this] have "r \<noteq> []" "hd r" by simp_all
    ultimately have "l @ tl r = r" by (cases r) auto
    with marks_split(7) True show ?thesis by simp
  next
    case False
    with idx have md: "0 < md" and mi: "1 \<le> mi" "mi < ?n - 1" by auto
    then have mi': "mi + 1 < ?n" by simp
    from rdpScan_char[OF scan] md
    have at: "?f (ps ! mi) = md"
      and before: "\<forall>k. 1 \<le> k \<and> k < mi \<longrightarrow> ?f (ps ! k) < md"
      and inner: "\<forall>k. 1 \<le> k \<and> k < ?n - 1 \<longrightarrow> ?f (ps ! k) \<le> md"
      by auto
    have f_before: "?f p < md" if "p \<in> set (take mi ps)" for p
    proof -
      from that obtain k where k: "k < mi" "p = ps ! k"
        using mi' by (auto simp: in_set_conv_nth)
      show ?thesis
      proof (cases "k = 0")
        case True
        with k md show ?thesis by (simp add: perpendicularDistance_start)
      next
        case False
        with k before show ?thesis by simp
      qed
    qed
    have f_all: "?f p \<le> md" if "p \<in> set ps" for p
    proof -
      from that obtain k where k: "k < ?n" "p = ps ! k" by (auto simp: in_set_conv_nth)
      consider "k = 0" | "1 \<le> k" "k < ?n - 1" | "k = ?n - 1" using k by linarith
      then show ?thesis
      proof cases
        case 1
        with k md show ?thesis by (simp add: perpendicularDistance_start)
      next
        case 2
        with k inner show ?thesis by simp
      next
        case 3
        with k md show ?thesis by (simp add: perpendicularDistance_end)
      qed
    qed
    note sp = collectKept_split[OF marks_split(4,5) mi']
    define B where "B = collectKept (take mi ps) (butlast l)"
    define R' where "R' = collectKept (drop (mi + 1) ps) (tl r)"
    define c where "c = length B"
    define ck where "ck = collectKept ps (l @ tl r)"
    have L: "?L = B @ [ps ! mi]" using sp(2) by (simp add: B_def)
    have R: "?R = ps ! mi # R'" using sp(3) by (simp add: R'_def)
    have ckBR: "ck = B @ ps ! mi # R'" unfolding ck_def sp(1) L R by simp
    have tne: "take (mi + 1) ps \<noteq> []" and dne: "drop mi ps \<noteq> []" using mi' by auto
    have lenl: "length l = length (take (mi + 1) ps)" using rdpMarks_length[OF marks_split(4)] .
    have lenr: "length r = length (drop mi ps)" using rdpMarks_length[OF marks_split(5)] .
    have l2: "2 \<le> length (take (mi + 1) ps)" using mi mi' by simp
    have r2: "2 \<le> length (drop mi ps)" using mi' by simp
    from rdpMarks_ends[OF marks_split(4) tne] have le: "hd l" "last l" by simp_all
    from rdpMarks_ends[OF marks_split(5) dne] have re: "hd r" "last r" by simp_all
    from collectKept_ends[OF lenl l2 le]
    have L2: "2 \<le> length ?L" and hdL: "hd ?L = hd (take (mi + 1) ps)" by simp_all
    from collectKept_ends[OF lenr r2 re]
    have R2: "2 \<le> length ?R" and lastR: "last ?R = last (drop mi ps)" by simp_all
    have c1: "1 \<le> c" using L2 unfolding L c_def by simp
    then have Bne: "B \<noteq> []" by (auto simp: c_def)
    have R'ne: "R' \<noteq> []" using R2 unfolding R by auto
    have ck0: "ck ! 0 = ps ! 0"
    proof -
      have "ck ! 0 = hd ?L" unfolding ckBR L using Bne by (cases B) auto
      also have "\<dots> = ps ! 0" unfolding hdL using mi' tne by (simp add: hd_conv_nth)
      finally show ?thesis .
    qed
    have lenck: "length ck = c + 1 + length R'" by (simp add: ckBR c_def)
    have ckl: "ck ! (length ck - 1) = ps ! (?n - 1)"
    proof -
      have "ck \<noteq> []" by (simp add: ckBR)
      then have "ck ! (length ck - 1) = last ck" by (simp add: last_conv_nth)
      also have "\<dots> = last ?R" unfolding ckBR R by simp
      also have "\<dots> = ps ! (?n - 1)" unfolding lastR using mi' by (simp add: last_conv_nth)
      finally show ?thesis .
    qed
    have ckc: "ck ! c = ps ! mi" by (simp add: ckBR c_def)
    have subB: "set B \<subseteq> set (take mi ps)" unfolding B_def by (rule collectKept_subset)
    have subck: "set ck \<subseteq> set ps" unfolding ck_def by (rule collectKept_subset)
    have scan_ck: "rdpScan ck 0 (length ck - 1) 1 0 0 = (md, c)"
    proof (rule rdpScan_unique)
      show "1 \<le> c" by (rule c1)
      show "c < length ck - 1" using R'ne by (simp add: lenck)
      show "perpendicularDistance (ck ! c) (ck ! 0) (ck ! (length ck - 1)) = md"
        unfolding ck0 ckl ckc by (rule at)
      show "0 < md" by (rule md)
      show "\<forall>k. 1 \<le> k \<and> k < c \<longrightarrow>
          perpendicularDistance (ck ! k) (ck ! 0) (ck ! (length ck - 1)) < md"
      proof (intro allI impI)
        fix k assume k: "1 \<le> k \<and> k < c"
        then have "ck ! k = B ! k" by (simp add: ckBR nth_append c_def)
        moreover have "B ! k \<in> set B" using k by (simp add: c_def)
        ultimately have "ck ! k \<in> set (take mi ps)" using subB by auto
        then show "perpendicularDistance (ck ! k) (ck ! 0) (ck ! (length ck - 1)) < md"
          unfolding ck0 ckl by (rule f_before)
      qed
      show "\<forall>k. 1 \<le> k \<and> k < length ck - 1 \<longrightarrow>
          perpendicularDistance (ck ! k) (ck ! 0) (ck ! (length ck - 1)) \<le> md"
      proof (intro allI impI)
        fix k assume k: "1 \<le> k \<and> k < length ck - 1"
        then have "ck ! k \<in> set ck" by (intro nth_mem) linarith
        with subck have "ck ! k \<in> set ps" by auto
        then show "perpendicularDistance (ck ! k) (ck ! 0) (ck ! (length ck - 1)) \<le> md"
          unfolding ck0 ckl by (rule f_all)
      qed
    qed
    have tk: "take (c + 1) ck = ?L" unfolding L ckBR by (simp add: c_def)
    have dr: "drop c ck = ?R" unfolding R ckBR by (simp add: c_def)
    have len3: "3 \<le> length ck" using c1 R'ne lenck by (cases R') auto
    have ihL: "rdpMarks eps (take (c + 1) ck) (replicate (length ?L) True)"
      unfolding tk by (rule marks_split(6))
    have ihR: "rdpMarks eps (drop c ck) (replicate (length ?R) True)"
      unfolding dr by (rule marks_split(7))
    from rdpMarks.marks_split[OF len3 scan_ck marks_split(3) ihL ihR]
    have "rdpMarks eps ck (replicate (length ?L) True @ tl (replicate (length ?R) True))" .
    moreover have "replicate (length ?L) True @ tl (replicate (length ?R) True) =
        replicate (length ck) True"
      unfolding L R lenck by (simp add: replicate_add[symmetric] c_def)
    ultimately show ?thesis unfolding ck_def by simp
  qed
qed

section \<open>simplifyPath\<close>

lemma keep0_rangeOpen:
  assumes "3 \<le> length ps"
  shows "rangeOpen ps 0 (length ps - 1)
           (((replicate (length ps) False)[0 := True])[length ps - 1 := True])"
proof -
  let ?n = "length ps"
  let ?keep0 = "((replicate ?n False)[0 := True])[?n - 1 := True]"
  have len: "length ?keep0 = ?n" by simp
  have pos: "0 < length (replicate ?n False)" "?n - 1 \<noteq> 0"
    "?n - 1 < length ((replicate ?n False)[0 := True])" using assms by auto
  have "?keep0 ! 0 = (replicate ?n False)[0 := True] ! 0"
    using pos(2) by (rule nth_list_update_neq)
  also have "\<dots> = True" using pos(1) by (rule nth_list_update_eq)
  finally have a: "?keep0 ! 0" by simp
  have "?keep0 ! (?n - 1) = True" using pos(3) by (rule nth_list_update_eq)
  then have b: "?keep0 ! (?n - 1)" by simp
  have c: "\<not> ?keep0 ! i" if "0 < i" "i < ?n - 1" for i
    using that by (simp add: nth_list_update)
  from assms len a b c show ?thesis unfolding rangeOpen_def by auto
qed

lemma simplifyPath_marks:
  assumes "3 \<le> length (m_path s)"
  shows "(simplifyPath s = Some s') =
         (\<exists>m. rdpMarks (m_simplifyTolerance s) (m_path s) m \<and>
              s' = s\<lparr>m_simplifiedPath := collectKept (m_path s) m\<rparr>)"
proof -
  let ?ps = "m_path s"
  let ?n = "length ?ps"
  let ?keep0 = "((replicate ?n False)[0 := True])[?n - 1 := True]"
  have ne: "?ps \<noteq> []" using assms by auto
  have seg: "segment ?ps 0 (?n - 1) = ?ps" using ne by (rule segment_whole)
  have ro: "rangeOpen ?ps 0 (?n - 1) ?keep0" using assms by (rule keep0_rangeOpen)
  have put: "take 0 ?keep0 @ m @ drop (?n - 1 + 1) ?keep0 = m" for m
    using assms by simp
  show ?thesis
  proof
    assume "simplifyPath s = Some s'"
    with assms obtain keep where
      k: "rdpSimplify ?ps 0 (?n - 1) (m_simplifyTolerance s) ?keep0 = Some keep"
      and s': "s' = s\<lparr>m_simplifiedPath := collectKept ?ps keep\<rparr>"
      by (auto simp: simplifyPath_def Let_def split: option.splits)
    from rdpSimplify_marks[OF k] ro obtain m where
      "rdpMarks (m_simplifyTolerance s) (segment ?ps 0 (?n - 1)) m"
      and "keep = take 0 ?keep0 @ m @ drop (?n - 1 + 1) ?keep0" by blast
    then have "rdpMarks (m_simplifyTolerance s) ?ps m" and "keep = m"
      unfolding seg put by simp_all
    with s' show "\<exists>m. rdpMarks (m_simplifyTolerance s) ?ps m \<and>
              s' = s\<lparr>m_simplifiedPath := collectKept ?ps m\<rparr>" by blast
  next
    assume "\<exists>m. rdpMarks (m_simplifyTolerance s) ?ps m \<and>
              s' = s\<lparr>m_simplifiedPath := collectKept ?ps m\<rparr>"
    then obtain m where m: "rdpMarks (m_simplifyTolerance s) ?ps m"
      and s': "s' = s\<lparr>m_simplifiedPath := collectKept ?ps m\<rparr>" by blast
    from marks_rdpSimplify[OF m seg[symmetric] ro]
    have "rdpSimplify ?ps 0 (?n - 1) (m_simplifyTolerance s) ?keep0 = Some m"
      unfolding put .
    with assms s' show "simplifyPath s = Some s'"
      by (simp add: simplifyPath_def Let_def)
  qed
qed

lemma elbow_raw_eq:
  "elbow_raw = elbow_simplified\<lparr>m_simplifiedPath := [\<lparr>pt_x = 0, pt_y = 0\<rparr>, \<lparr>pt_x = 2, pt_y = 0\<rparr>]\<rparr>"
  by (simp add: elbow_raw_def elbow_simplified_def eval_capture)

lemma elbow_simplify: "simplifyPath elbow_raw = Some elbow_simplified"
  by (simp add: elbow_raw_eq elbow_simplified_def eval_rdp)

lemma elbow_again:
  "elbow_simplified\<lparr>m_path := m_simplifiedPath elbow_simplified\<rparr> =
     elbow_simplified\<lparr>m_path := [\<lparr>pt_x = 0, pt_y = 0\<rparr>, \<lparr>pt_x = 4, pt_y = 0\<rparr>, \<lparr>pt_x = 4, pt_y = 4\<rparr>]\<rparr>"
  by (simp add: elbow_simplified_def)

section \<open>The distance to a line and to a segment\<close>

text \<open>
  \<open>perpendicularDistance\<close> is the least distance from the point to a point of the line
  through \<open>lineStart\<close> and \<open>lineEnd\<close> (to \<open>lineStart\<close> when the two coincide), and
  \<open>segmentDistance\<close> is the least distance to a point of the segment.
\<close>

lemma line_identity:
  fixes px py dx dy t :: real
  shows "(dx * dx + dy * dy) * ((px - t * dx)\<^sup>2 + (py - t * dy)\<^sup>2) =
         (px * dy - py * dx)\<^sup>2 + ((px * dx + py * dy) - t * (dx * dx + dy * dy))\<^sup>2"
  by (simp add: power2_eq_square algebra_simps)



lemma segment_least:
  fixes px py dx dy t :: real
  assumes "0 \<le> t" "t \<le> 1"
  shows "sqrt ((px - (max 0 (min 1 (if dx * dx + dy * dy = 0 then 0
                 else (px * dx + py * dy) / (dx * dx + dy * dy)))) * dx)\<^sup>2 +
               (py - (max 0 (min 1 (if dx * dx + dy * dy = 0 then 0
                 else (px * dx + py * dy) / (dx * dx + dy * dy)))) * dy)\<^sup>2)
         \<le> sqrt ((px - t * dx)\<^sup>2 + (py - t * dy)\<^sup>2)"
proof (cases "dx * dx + dy * dy = 0")
  case True
  then have "dx = 0" "dy = 0" by (simp_all add: sum_squares_eq_zero_iff)
  then show ?thesis by simp
next
  case False
  define L where "L = dx * dx + dy * dy"
  define s where "s = px * dx + py * dy"
  define tc where "tc = max 0 (min 1 (s / L))"
  have "0 \<le> L" by (simp add: L_def)
  moreover have "L \<noteq> 0" using False by (simp only: L_def not_False_eq_True)
  ultimately have L: "0 < L" by linarith
  have "\<bar>s - tc * L\<bar> \<le> \<bar>s - t * L\<bar>"
  proof -
    consider (lo) "s / L \<le> 0" | (mid) "0 \<le> s / L" "s / L \<le> 1" | (hi) "1 \<le> s / L" by linarith
    then show ?thesis
    proof cases
      case lo
      then have tc: "tc = 0" by (simp add: tc_def)
      from lo L have "s \<le> 0" by (simp add: divide_le_0_iff)
      moreover have "0 \<le> t * L" using assms(1) L by simp
      ultimately show ?thesis unfolding tc by simp
    next
      case mid
      then have "tc = s / L" by (simp add: tc_def)
      then have "s - tc * L = 0" using L by simp
      then show ?thesis by simp
    next
      case hi
      then have tc: "tc = 1" by (simp add: tc_def)
      from hi L have "L \<le> s" by (simp add: le_divide_eq)
      moreover have "t * L \<le> L" using assms(2) L by simp
      ultimately show ?thesis unfolding tc by simp
    qed
  qed
  then have "(s - tc * L)\<^sup>2 \<le> (s - t * L)\<^sup>2" by (simp only: abs_le_square_iff)
  then have "L * ((px - tc * dx)\<^sup>2 + (py - tc * dy)\<^sup>2) \<le> L * ((px - t * dx)\<^sup>2 + (py - t * dy)\<^sup>2)"
    unfolding L_def line_identity s_def by simp
  then have "(px - tc * dx)\<^sup>2 + (py - tc * dy)\<^sup>2 \<le> (px - t * dx)\<^sup>2 + (py - t * dy)\<^sup>2"
    using L by simp
  then have "sqrt ((px - tc * dx)\<^sup>2 + (py - tc * dy)\<^sup>2) \<le> sqrt ((px - t * dx)\<^sup>2 + (py - t * dy)\<^sup>2)"
    by (rule real_sqrt_le_mono)
  then show ?thesis using False unfolding tc_def s_def L_def by simp
qed

lemma lineDistanceAt_alt:
  "lineDistanceAt p a b t =
     sqrt ((real_of_int (pt_x p - pt_x a) - t * real_of_int (pt_x b - pt_x a))\<^sup>2 +
           (real_of_int (pt_y p - pt_y a) - t * real_of_int (pt_y b - pt_y a))\<^sup>2)"
  by (simp add: lineDistanceAt_def algebra_simps)



lemma segmentDistance_least:
  assumes "0 \<le> t" and "t \<le> 1"
  shows "segmentDistance p a b \<le> lineDistanceAt p a b t"
  unfolding segmentDistance_def Let_def lineDistanceAt_alt
  using segment_least[OF assms, of "real_of_int (pt_x p - pt_x a)" "real_of_int (pt_x b - pt_x a)"
      "real_of_int (pt_y b - pt_y a)" "real_of_int (pt_y p - pt_y a)"]
  by (simp add: if_distrib[of "\<lambda>v. max 0 (min 1 v)"] cong: if_cong)

lemma polylineDistance_least:
  assumes "j + 1 < length poly" and "0 \<le> t" and "t \<le> 1"
  shows "polylineDistance p poly \<le> lineDistanceAt p (poly ! j) (poly ! (j + 1)) t"
  using assms(1)
proof (induction p poly arbitrary: j rule: polylineDistance.induct)
  case (3 p a b)
  then have "j = 0" by simp
  then show ?case using segmentDistance_least[OF assms(2,3)] by simp
next
  case (4 p a b c rest)
  show ?case
  proof (cases j)
    case 0
    then show ?thesis
      using segmentDistance_least[OF assms(2,3), of p a b] by (simp add: min_le_iff_disj)
  next
    case (Suc j')
    with "4.prems" have "j' + 1 < length (b # c # rest)" by simp
    from "4.IH"[OF this] Suc show ?thesis by (simp add: min_le_iff_disj)
  qed
qed simp_all

section \<open>The tolerance bound\<close>











section \<open>Idempotence\<close>

text \<open>
  C9. \<open>simplifyPath\<close> returns whenever the tolerance is not negative; and when it
  returns, running it again on the session whose raw path is the simplified path it
  produced, with the same tolerance, returns that session unchanged: the simplified
  path of the simplified path is the simplified path. This holds for every raw path,
  so for those of at least 3 points.
\<close>

theorem simplifyPath_idempotent:
  "(0 \<le> m_simplifyTolerance s \<longrightarrow> (\<exists>s'. simplifyPath s = Some s')) \<and>
   (\<forall>s'. simplifyPath s = Some s' \<longrightarrow>
      simplifyPath (s'\<lparr>m_path := m_simplifiedPath s'\<rparr>) =
        Some (s'\<lparr>m_path := m_simplifiedPath s'\<rparr>))"
proof (intro conjI impI allI)
  assume "0 \<le> m_simplifyTolerance s"
  then show "\<exists>s'. simplifyPath s = Some s'" by (rule simplifyPath_returns)
next
  fix s'
  assume s': "simplifyPath s = Some s'"
  define s2 where "s2 = s'\<lparr>m_path := m_simplifiedPath s'\<rparr>"
  have same: "m_simplifiedPath s2 = m_path s2" by (simp add: s2_def)
  have fix2: "s2\<lparr>m_simplifiedPath := m_path s2\<rparr> = s2" by (simp add: same[symmetric])
  have "simplifyPath s2 = Some s2"
  proof (cases "length (m_path s2) < 3")
    case True
    then show ?thesis by (simp add: simplifyPath_def fix2)
  next
    case False
    then have len2: "3 \<le> length (m_path s2)" by simp
    have long: "3 \<le> length (m_path s)"
    proof (rule ccontr)
      assume "\<not> 3 \<le> length (m_path s)"
      with s' have "s' = s\<lparr>m_simplifiedPath := m_path s\<rparr>" by (simp add: simplifyPath_def)
      then have "m_path s2 = m_path s" by (simp add: s2_def)
      with False \<open>\<not> 3 \<le> length (m_path s)\<close> show False by simp
    qed
    from s' simplifyPath_marks[OF long] obtain m where
      m: "rdpMarks (m_simplifyTolerance s) (m_path s) m"
      and eq: "s' = s\<lparr>m_simplifiedPath := collectKept (m_path s) m\<rparr>" by blast
    have q: "m_path s2 = collectKept (m_path s) m"
      and tol: "m_simplifyTolerance s2 = m_simplifyTolerance s"
      by (simp_all add: s2_def eq)
    from rdpMarks_idem[OF m]
    have "rdpMarks (m_simplifyTolerance s2) (m_path s2) (replicate (length (m_path s2)) True)"
      by (simp add: q tol)
    moreover have "s2 = s2\<lparr>m_simplifiedPath :=
        collectKept (m_path s2) (replicate (length (m_path s2)) True)\<rparr>"
      by (simp add: collectKept_all fix2)
    ultimately show ?thesis unfolding simplifyPath_marks[OF len2] by blast
  qed
  then show "simplifyPath (s'\<lparr>m_path := m_simplifiedPath s'\<rparr>) =
        Some (s'\<lparr>m_path := m_simplifiedPath s'\<rparr>)" by (simp add: s2_def)
qed

theorem simplifyPath_idempotent_witness:
  "0 \<le> m_simplifyTolerance elbow_raw \<and> 3 \<le> length (m_path elbow_raw) \<and>
   simplifyPath elbow_raw = Some elbow_simplified \<and>
   simplifyPath (elbow_simplified\<lparr>m_path := m_simplifiedPath elbow_simplified\<rparr>) =
     Some (elbow_simplified\<lparr>m_path := m_simplifiedPath elbow_simplified\<rparr>) \<and>
   m_simplifiedPath elbow_simplified =
     [\<lparr>pt_x = 0, pt_y = 0\<rparr>, \<lparr>pt_x = 4, pt_y = 0\<rparr>, \<lparr>pt_x = 4, pt_y = 4\<rparr>]"
proof -
  have a: "3 \<le> length (m_path elbow_raw)" and b: "0 \<le> m_simplifyTolerance elbow_raw"
    by (simp_all add: elbow_raw_eq elbow_simplified_def)
  have c: "m_simplifiedPath elbow_simplified =
     [\<lparr>pt_x = 0, pt_y = 0\<rparr>, \<lparr>pt_x = 4, pt_y = 0\<rparr>, \<lparr>pt_x = 4, pt_y = 4\<rparr>]"
    by (simp add: elbow_simplified_def)
  from simplifyPath_idempotent[of elbow_raw] elbow_simplify
  have "simplifyPath (elbow_simplified\<lparr>m_path := m_simplifiedPath elbow_simplified\<rparr>) =
     Some (elbow_simplified\<lparr>m_path := m_simplifiedPath elbow_simplified\<rparr>)"
    by blast
  with a b c elbow_simplify show ?thesis by blast
qed

end
